theory Spec2Isabelle
  imports Complex_Main "HOL-Library.Word"
begin

unbundle bit_operations_syntax

section \<open>Data model of the serial frame\<close>

text \<open>
  Python integers are unbounded, so every integer field of the frame is an \<open>int\<close>;
  a byte of a \<open>bytes\<close>, \<open>bytearray\<close> or \<open>memoryview\<close> object is an \<open>8 word\<close>.
\<close>

type_synonym byte = "8 word"

datatype error =
    ValueError | IndexError | StructError | AssertionError | ResourceClosedError | SerialException
  | InvalidMediaConfigurationError

text \<open>
  Modelled from the spec: the enumeration \<open>pyuavcan.transport.Priority\<close> is not
  under src/. The spec gives it a 3-bit encoding with range 0..7; the member names are
  those the source's tests use (HIGH, FAST, LOW) completed to eight levels.
\<close>

datatype Priority = EXCEPTIONAL | IMMEDIATE | FAST | HIGH | NOMINAL | LOW | SLOW | OPTIONAL

fun int_of_Priority :: "Priority \<Rightarrow> int" where
  "int_of_Priority EXCEPTIONAL = 0"
| "int_of_Priority IMMEDIATE = 1"
| "int_of_Priority FAST = 2"
| "int_of_Priority HIGH = 3"
| "int_of_Priority NOMINAL = 4"
| "int_of_Priority LOW = 5"
| "int_of_Priority SLOW = 6"
| "int_of_Priority OPTIONAL = 7"

text \<open>\<open>Priority(int_priority)\<close>: the enum lookup raises ValueError outside 0..7.\<close>

definition Priority_of_int :: "int \<Rightarrow> error + Priority" where
  "Priority_of_int i =
     (if i = 0 then Inr EXCEPTIONAL else if i = 1 then Inr IMMEDIATE
      else if i = 2 then Inr FAST else if i = 3 then Inr HIGH
      else if i = 4 then Inr NOMINAL else if i = 5 then Inr LOW
      else if i = 6 then Inr SLOW else if i = 7 then Inr OPTIONAL
      else Inl ValueError)"

text \<open>
  Modelled from the spec: the classes \<open>MessageDataSpecifier\<close> and
  \<open>ServiceDataSpecifier\<close> of \<open>pyuavcan.transport\<close> are not under src/. A data
  specifier is a tagged variant: Message with a subject id, Service with a service id and
  a role. The service id is 9 bits wide (\<open>SERVICE_ID_MASK\<close>). For the subject id the
  source's own tests construct \<open>MessageDataSpecifier(12345)\<close> and the wire encoding
  leaves the fifteen bits below bit 15 to it, so the mask is the 15-bit one.
\<close>

datatype Role = REQUEST | RESPONSE

datatype DataSpecifier =
    MessageDataSpecifier (subject_id: int)
  | ServiceDataSpecifier (service_id: int) (role: Role)

definition SUBJECT_ID_MASK :: int where "SUBJECT_ID_MASK = 32767"
definition SERVICE_ID_MASK :: int where "SERVICE_ID_MASK = 511"

text \<open>The constructors of the two classes: ValueError when the id is out of range.\<close>

definition new_MessageDataSpecifier :: "int \<Rightarrow> error + DataSpecifier" where
  "new_MessageDataSpecifier sid =
     (if 0 \<le> sid \<and> sid \<le> SUBJECT_ID_MASK then Inr (MessageDataSpecifier sid)
      else Inl ValueError)"

definition new_ServiceDataSpecifier :: "int \<Rightarrow> Role \<Rightarrow> error + DataSpecifier" where
  "new_ServiceDataSpecifier sid r =
     (if 0 \<le> sid \<and> sid \<le> SERVICE_ID_MASK then Inr (ServiceDataSpecifier sid r)
      else Inl ValueError)"

fun valid_data_specifier :: "DataSpecifier \<Rightarrow> bool" where
  "valid_data_specifier (MessageDataSpecifier sid) = (0 \<le> sid \<and> sid \<le> SUBJECT_ID_MASK)"
| "valid_data_specifier (ServiceDataSpecifier sid r) = (0 \<le> sid \<and> sid \<le> SERVICE_ID_MASK)"

fun is_service :: "DataSpecifier \<Rightarrow> bool" where
  "is_service (MessageDataSpecifier sid) = False"
| "is_service (ServiceDataSpecifier sid r) = True"

text \<open>
  Modelled from the spec: \<open>pyuavcan.transport.Timestamp\<close> is not under src/; it is a
  monotonic and a wall instant.
\<close>

datatype Timestamp = Timestamp (system_ns: int) (monotonic_ns: int)

text \<open>The dataclass \<open>SerialFrame\<close> with the fields of its base class \<open>Frame\<close>.\<close>

record SerialFrame =
  timestamp :: Timestamp
  priority :: Priority
  transfer_id :: int
  index :: int
  end_of_transfer :: bool
  payload :: "byte list"
  source_node_id :: "int option"
  destination_node_id :: "int option"
  data_specifier :: DataSpecifier
  data_type_hash :: int

definition NODE_ID_MASK :: int where "NODE_ID_MASK = 4095"
definition TRANSFER_ID_MASK :: int where "TRANSFER_ID_MASK = 2 ^ 64 - 1"
definition INDEX_MASK :: int where "INDEX_MASK = 2 ^ 31 - 1"
definition DATA_TYPE_HASH_MASK :: int where "DATA_TYPE_HASH_MASK = 2 ^ 64 - 1"

definition FRAME_DELIMITER_BYTE :: byte where "FRAME_DELIMITER_BYTE = 0x9E"
definition ESCAPE_PREFIX_BYTE :: byte where "ESCAPE_PREFIX_BYTE = 0x8E"

text \<open>
  \<open>SerialFrame.__post_init__\<close>: the checks in the order of the source. The three
  \<open>isinstance\<close> checks cannot fail on a typed record and have no branch here.
\<close>

definition post_init :: "SerialFrame \<Rightarrow> error + SerialFrame" where
  "post_init f =
     (if (case source_node_id f of None \<Rightarrow> False
          | Some n \<Rightarrow> \<not> (0 \<le> n \<and> n \<le> NODE_ID_MASK)) then Inl ValueError
      else if (case destination_node_id f of None \<Rightarrow> False
          | Some n \<Rightarrow> \<not> (0 \<le> n \<and> n \<le> NODE_ID_MASK)) then Inl ValueError
      else if is_service (data_specifier f) \<and> source_node_id f = None then Inl ValueError
      else if \<not> (0 \<le> data_type_hash f \<and> data_type_hash f \<le> DATA_TYPE_HASH_MASK)
        then Inl ValueError
      else if \<not> (0 \<le> transfer_id f \<and> transfer_id f \<le> TRANSFER_ID_MASK) then Inl ValueError
      else if \<not> (0 \<le> index f \<and> index f \<le> INDEX_MASK) then Inl ValueError
      else Inr f)"

section \<open>CRC-32C\<close>

text \<open>
  Modelled from the spec: the class \<open>pyuavcan.transport.commons.crc.CRC32C\<close> is not
  under src/. The spec names it the Castagnoli CRC with an incremental update and a
  residue check, stored little-endian in four bytes. This is the reflected CRC-32C:
  polynomial 0x82F63B78, register initialised to all ones, output XOR-ed with all ones;
  the residue check compares the register, before the output XOR, with the constant
  0xB798B438 that a block followed by its own CRC always leaves there.
\<close>

definition CRC32C_POLY :: "32 word" where "CRC32C_POLY = 0x82F63B78"
definition CRC32C_RESIDUE :: "32 word" where "CRC32C_RESIDUE = 0xB798B438"

definition crc_shift :: "32 word \<Rightarrow> 32 word" where
  "crc_shift c = (if bit c 0 then drop_bit 1 c XOR CRC32C_POLY else drop_bit 1 c)"

primrec crc_shifts :: "nat \<Rightarrow> 32 word \<Rightarrow> 32 word" where
  "crc_shifts 0 c = c"
| "crc_shifts (Suc n) c = crc_shifts n (crc_shift c)"

definition crc_add_byte :: "32 word \<Rightarrow> byte \<Rightarrow> 32 word" where
  "crc_add_byte v b = crc_shifts 8 (v XOR ucast b)"

definition crc_add :: "32 word \<Rightarrow> byte list \<Rightarrow> 32 word" where
  "crc_add v bs = foldl crc_add_byte v bs"

text \<open>\<open>CRC32C.new(data)\<close>: the register after \<open>data\<close>.\<close>

definition CRC32C_new :: "byte list \<Rightarrow> 32 word" where
  "CRC32C_new bs = crc_add 0xFFFFFFFF bs"

definition check_residue :: "32 word \<Rightarrow> bool" where
  "check_residue v = (v = CRC32C_RESIDUE)"

definition crc_value :: "32 word \<Rightarrow> int" where
  "crc_value v = uint (v XOR 0xFFFFFFFF)"

section \<open>Packing integers\<close>

text \<open>\<open>int.to_bytes(n, 'little')\<close> and \<open>int.from_bytes(bs, 'little')\<close>.\<close>

primrec to_bytes_le :: "nat \<Rightarrow> int \<Rightarrow> byte list" where
  "to_bytes_le 0 v = []"
| "to_bytes_le (Suc n) v = word_of_int (v mod 256) # to_bytes_le n (v div 256)"

primrec from_bytes_le :: "byte list \<Rightarrow> int" where
  "from_bytes_le [] = 0"
| "from_bytes_le (b # bs) = uint b + 256 * from_bytes_le bs"

definition value_as_bytes :: "32 word \<Rightarrow> byte list" where
  "value_as_bytes v = to_bytes_le 4 (crc_value v)"

definition VERSION :: int where "VERSION = 0"
definition ANONYMOUS_NODE_ID :: int where "ANONYMOUS_NODE_ID = 0xFFFF"
definition CRC_SIZE_BYTES :: nat where "CRC_SIZE_BYTES = 4"
definition HEADER_SIZE :: nat where "HEADER_SIZE = 28 + CRC_SIZE_BYTES"
definition NUM_OVERHEAD_BYTES_EXCEPT_DELIMITERS_AND_ESCAPING :: nat where
  "NUM_OVERHEAD_BYTES_EXCEPT_DELIMITERS_AND_ESCAPING = HEADER_SIZE + CRC_SIZE_BYTES"

text \<open>
  \<open>_HEADER_WITHOUT_CRC_FORMAT.pack\<close> with the format \<open><BBHHHQQL\<close>: little-endian,
  no padding, fields of 1, 1, 2, 2, 2, 8, 8 and 4 bytes; \<open>struct.error\<close> when a value
  does not fit its unsigned field.
\<close>

definition fits :: "nat \<Rightarrow> int \<Rightarrow> bool" where
  "fits n v = (0 \<le> v \<and> v < 2 ^ (8 * n))"

definition pack_header ::
  "int \<Rightarrow> int \<Rightarrow> int \<Rightarrow> int \<Rightarrow> int \<Rightarrow> int \<Rightarrow> int \<Rightarrow> int \<Rightarrow> error + byte list" where
  "pack_header version prio src_nid dst_nid data_spec dt_hash tid index_eot =
     (if fits 1 version \<and> fits 1 prio \<and> fits 2 src_nid \<and> fits 2 dst_nid \<and>
         fits 2 data_spec \<and> fits 8 dt_hash \<and> fits 8 tid \<and> fits 4 index_eot
      then Inr (to_bytes_le 1 version @ to_bytes_le 1 prio @ to_bytes_le 2 src_nid @
                to_bytes_le 2 dst_nid @ to_bytes_le 2 data_spec @ to_bytes_le 8 dt_hash @
                to_bytes_le 8 tid @ to_bytes_le 4 index_eot)
      else Inl StructError)"

text \<open>\<open>unpack_from\<close> reads the field of \<open>n\<close> bytes at offset \<open>off\<close>.\<close>

definition unpack_field :: "byte list \<Rightarrow> nat \<Rightarrow> nat \<Rightarrow> int" where
  "unpack_field bs off n = from_bytes_le (take n (drop off bs))"

section \<open>Encoding a frame\<close>

fun encode_data_specifier :: "DataSpecifier \<Rightarrow> int" where
  "encode_data_specifier (MessageDataSpecifier sid) = sid"
| "encode_data_specifier (ServiceDataSpecifier sid r) =
     push_bit 15 1 OR (if r = RESPONSE then push_bit 14 1 else 0) OR sid"

text \<open>
  The header with its CRC followed by the payload and the payload's CRC: the bytes that
  the loop of \<open>compile_into\<close> chains together.
\<close>

definition frame_image :: "SerialFrame \<Rightarrow> error + byte list" where
  "frame_image f =
     (let src_nid = (case source_node_id f of None \<Rightarrow> ANONYMOUS_NODE_ID | Some n \<Rightarrow> n);
          dst_nid = (case destination_node_id f of None \<Rightarrow> ANONYMOUS_NODE_ID | Some n \<Rightarrow> n);
          data_spec = encode_data_specifier (data_specifier f);
          index_eot = index f OR (if end_of_transfer f then push_bit 31 1 else 0)
      in case pack_header VERSION (int_of_Priority (priority f)) src_nid dst_nid data_spec
                (data_type_hash f) (transfer_id f) index_eot of
           Inl e \<Rightarrow> Inl e
         | Inr header0 \<Rightarrow>
             (let header = header0 @ value_as_bytes (CRC32C_new header0) in
              if length header \<noteq> HEADER_SIZE then Inl AssertionError
              else Inr (header @ payload f @ value_as_bytes (CRC32C_new (payload f)))))"

text \<open>Item assignment on a \<open>bytearray\<close>: IndexError past the end.\<close>

definition set_item :: "byte list \<Rightarrow> nat \<Rightarrow> byte \<Rightarrow> error + byte list" where
  "set_item buf i b = (if i < length buf then Inr (buf[i := b]) else Inl IndexError)"

definition escapees :: "byte list" where
  "escapees = [FRAME_DELIMITER_BYTE, ESCAPE_PREFIX_BYTE]"

text \<open>The loop of \<open>compile_into\<close> over the chained bytes, writing from index \<open>i\<close>.\<close>

fun write_escaped :: "byte list \<Rightarrow> byte list \<Rightarrow> nat \<Rightarrow> error + (byte list \<times> nat)" where
  "write_escaped [] buf i = Inr (buf, i)"
| "write_escaped (nb # rest) buf i =
     (if nb \<in> set escapees then
        (case set_item buf i ESCAPE_PREFIX_BYTE of
           Inl e \<Rightarrow> Inl e
         | Inr buf1 \<Rightarrow>
             (case set_item buf1 (i + 1) (nb XOR 0xFF) of
                Inl e \<Rightarrow> Inl e
              | Inr buf2 \<Rightarrow> write_escaped rest buf2 (i + 1 + 1)))
      else
        (case set_item buf i nb of
           Inl e \<Rightarrow> Inl e
         | Inr buf1 \<Rightarrow> write_escaped rest buf1 (i + 1)))"

text \<open>
  \<open>SerialFrame.compile_into\<close>. The result is the contents of the returned view, the
  buffer up to the end of the compiled frame.
\<close>

definition compile_into :: "SerialFrame \<Rightarrow> byte list \<Rightarrow> error + byte list" where
  "compile_into f out_buffer =
     (case frame_image f of
        Inl e \<Rightarrow> Inl e
      | Inr img \<Rightarrow>
          (case set_item out_buffer 0 FRAME_DELIMITER_BYTE of
             Inl e \<Rightarrow> Inl e
           | Inr buf1 \<Rightarrow>
               (case write_escaped img buf1 1 of
                  Inl e \<Rightarrow> Inl e
                | Inr (buf2, next_byte_index) \<Rightarrow>
                    (case set_item buf2 next_byte_index FRAME_DELIMITER_BYTE of
                       Inl e \<Rightarrow> Inl e
                     | Inr buf3 \<Rightarrow>
                         if next_byte_index + 1 - 2 < length img then Inl AssertionError
                         else Inr (take (next_byte_index + 1) buf3)))))"

section \<open>Decoding a frame\<close>

text \<open>The \<open>try ... except ValueError: return None\<close> around the construction.\<close>

fun except_ValueError :: "error + SerialFrame \<Rightarrow> error + SerialFrame option" where
  "except_ValueError (Inl ValueError) = Inr None"
| "except_ValueError (Inl e) = Inl e"
| "except_ValueError (Inr f) = Inr (Some f)"

text \<open>
  \<open>SerialFrame.parse_from_unescaped_image\<close>. \<open>Inl\<close> is an exception that leaves the
  function, \<open>Inr None\<close> the return value None. The data specifier is constructed before
  the \<open>try\<close>, so a ValueError of its constructor would leave the function.
\<close>

definition parse_from_unescaped_image ::
  "byte list \<Rightarrow> Timestamp \<Rightarrow> error + SerialFrame option" where
  "parse_from_unescaped_image header_payload_crc_image ts =
     (if length header_payload_crc_image < NUM_OVERHEAD_BYTES_EXCEPT_DELIMITERS_AND_ESCAPING
      then Inr None
      else
       (let header = take HEADER_SIZE header_payload_crc_image in
        if \<not> check_residue (CRC32C_new header) then Inr None
        else
         (let payload_with_crc = drop HEADER_SIZE header_payload_crc_image in
          if \<not> check_residue (CRC32C_new payload_with_crc) then Inr None
          else
           (let pl = take (length payload_with_crc - CRC_SIZE_BYTES) payload_with_crc;
                version = unpack_field header 0 1;
                int_priority = unpack_field header 1 1;
                src_nid = unpack_field header 2 2;
                dst_nid = unpack_field header 4 2;
                int_data_spec = unpack_field header 6 2;
                dt_hash = unpack_field header 8 8;
                tid = unpack_field header 16 8;
                index_eot = unpack_field header 24 4
            in
            if version \<noteq> VERSION then Inr None
            else
             (case (if int_data_spec AND push_bit 15 1 = 0
                    then new_MessageDataSpecifier int_data_spec
                    else new_ServiceDataSpecifier (int_data_spec AND SERVICE_ID_MASK)
                           (if int_data_spec AND push_bit 14 1 \<noteq> 0 then RESPONSE
                            else REQUEST)) of
                Inl e \<Rightarrow> Inl e
              | Inr ds \<Rightarrow>
                  except_ValueError
                    (case Priority_of_int int_priority of
                       Inl e \<Rightarrow> Inl e
                     | Inr prio \<Rightarrow>
                         post_init
                           \<lparr>timestamp = ts,
                            priority = prio,
                            transfer_id = tid,
                            index = index_eot AND INDEX_MASK,
                            end_of_transfer = (index_eot AND push_bit 31 1 \<noteq> 0),
                            payload = pl,
                            source_node_id =
                              (if src_nid = ANONYMOUS_NODE_ID then None else Some src_nid),
                            destination_node_id =
                              (if dst_nid = ANONYMOUS_NODE_ID then None else Some dst_nid),
                            data_specifier = ds,
                            data_type_hash = dt_hash\<rparr>))))))"

section \<open>Framing as the wire format states it\<close>

text \<open>
  The spec's wire format, in its own words, to be compared with what \<open>compile_into\<close>
  writes: between the delimiters every 0x9E or 0x8E is replaced by the pair
  0x8E, b XOR 0xFF, and no other byte is escaped.
\<close>

definition escape_byte :: "byte \<Rightarrow> byte list" where
  "escape_byte b =
     (if b = FRAME_DELIMITER_BYTE \<or> b = ESCAPE_PREFIX_BYTE then [ESCAPE_PREFIX_BYTE, b XOR 0xFF]
      else [b])"

definition escape :: "byte list \<Rightarrow> byte list" where
  "escape bs = concat (map escape_byte bs)"

text \<open>
  Modelled from the spec: the stream parser (\<open>_stream_parser.py\<close>) is not under src/.
  Inside a frame the spec has it read, after 0x8E, one more byte \<open>b\<close> and append
  \<open>b XOR 0xFF\<close>, and append any other byte as it is. Stripping the framing drops
  the two delimiters and undoes the escapes.
\<close>

fun unescape :: "byte list \<Rightarrow> byte list" where
  "unescape [] = []"
| "unescape [b] = (if b = ESCAPE_PREFIX_BYTE then [] else [b])"
| "unescape (b # c # cs) =
     (if b = ESCAPE_PREFIX_BYTE then (c XOR 0xFF) # unescape cs else b # unescape (c # cs))"

definition strip_framing :: "byte list \<Rightarrow> byte list" where
  "strip_framing out = unescape (butlast (tl out))"

text \<open>
  The number of bytes the compiled frame takes: the two delimiters and the escaped
  image. A buffer is sufficiently large for a frame when it has at least that many.
\<close>

definition compiled_length :: "SerialFrame \<Rightarrow> nat" where
  "compiled_length f = (case frame_image f of Inl e \<Rightarrow> 0 | Inr img \<Rightarrow> 2 + length (escape img))"

text \<open>
  A valid frame is one its constructor accepts, holding a data specifier that the
  constructor of its class accepted.
\<close>

definition valid_frame :: "SerialFrame \<Rightarrow> bool" where
  "valid_frame f = (post_init f = Inr f \<and> valid_data_specifier (data_specifier f))"

text \<open>Names for the header words that \<open>frame_image\<close> packs, used in the proofs.\<close>

definition nid_word :: "int option \<Rightarrow> int" where
  "nid_word n = (case n of None \<Rightarrow> ANONYMOUS_NODE_ID | Some k \<Rightarrow> k)"

definition index_eot_word :: "SerialFrame \<Rightarrow> int" where
  "index_eot_word f = index f OR (if end_of_transfer f then push_bit 31 1 else 0)"

definition header_without_crc :: "SerialFrame \<Rightarrow> byte list" where
  "header_without_crc f =
     to_bytes_le 1 VERSION @ to_bytes_le 1 (int_of_Priority (priority f)) @
     to_bytes_le 2 (nid_word (source_node_id f)) @ to_bytes_le 2 (nid_word (destination_node_id f)) @
     to_bytes_le 2 (encode_data_specifier (data_specifier f)) @ to_bytes_le 8 (data_type_hash f) @
     to_bytes_le 8 (transfer_id f) @ to_bytes_le 4 (index_eot_word f)"

text \<open>
  The frame that \<open>parse_from_unescaped_image\<close> hands to the constructor, given the
  data specifier and the priority it has decoded, used in the proofs.
\<close>

definition reconstruct :: "byte list \<Rightarrow> Timestamp \<Rightarrow> DataSpecifier \<Rightarrow> Priority \<Rightarrow> SerialFrame" where
  "reconstruct img ts ds prio =
     \<lparr>timestamp = ts,
      priority = prio,
      transfer_id = unpack_field (take 32 img) 16 8,
      index = unpack_field (take 32 img) 24 4 AND INDEX_MASK,
      end_of_transfer = (unpack_field (take 32 img) 24 4 AND push_bit 31 1 \<noteq> 0),
      payload = take (length (drop 32 img) - 4) (drop 32 img),
      source_node_id =
        (if unpack_field (take 32 img) 2 2 = ANONYMOUS_NODE_ID then None
         else Some (unpack_field (take 32 img) 2 2)),
      destination_node_id =
        (if unpack_field (take 32 img) 4 2 = ANONYMOUS_NODE_ID then None
         else Some (unpack_field (take 32 img) 4 2)),
      data_specifier = ds,
      data_type_hash = unpack_field (take 32 img) 8 8\<rparr>"

section \<open>Concrete frames of the source's tests\<close>

text \<open>The frame of \<open>_unittest_frame_compile_message\<close>, with a fixed timestamp.\<close>

definition example_message_frame :: SerialFrame where
  "example_message_frame =
     \<lparr>timestamp = Timestamp 0 0, priority = HIGH, transfer_id = 1234567890123456789,
      index = 1234567, end_of_transfer = True,
      payload = [0x61, 0x62, 0x63, 0x64, 0x9E, 0x65, 0x66, 0x8E],
      source_node_id = Some 0x9E, destination_node_id = Some 0x8E,
      data_specifier = MessageDataSpecifier 12345, data_type_hash = 0xdeadbeefbadc0ffe\<rparr>"

text \<open>The frame of \<open>_unittest_frame_compile_service\<close>, with a fixed timestamp.\<close>

definition example_service_frame :: SerialFrame where
  "example_service_frame =
     \<lparr>timestamp = Timestamp 0 0, priority = FAST, transfer_id = 1234567890123456789,
      index = 1234567, end_of_transfer = False, payload = [],
      source_node_id = Some 0x9E, destination_node_id = None,
      data_specifier = ServiceDataSpecifier 123 RESPONSE, data_type_hash = 0xdeadbeefbadc0ffe\<rparr>"

text \<open>
  The first image of \<open>_unittest_frame_parse\<close>: the header, its CRC, the payload
  "Squeeze mayonnaise onto a hamster" and the payload's CRC; and the frame the test
  expects from it.
\<close>

definition example_image :: "byte list" where
  "example_image =
     [0, 5, 0x7B, 0x00, 0xC8, 0x01, 0xE1, 0x10,
      0x0D, 0xF0, 0xDD, 0xE0, 0xFE, 0x0F, 0xDC, 0xBA,
      0xD2, 0x0A, 0x1F, 0xEB, 0x8C, 0xA9, 0x54, 0xAB,
      0x31, 0xD4, 0x00, 0x80,
      208, 155, 80, 72,
      83, 113, 117, 101, 101, 122, 101, 32, 109, 97, 121, 111, 110, 110, 97, 105, 115,
      101, 32, 111, 110, 116, 111, 32, 97, 32, 104, 97, 109, 115, 116, 101, 114,
      78, 120, 47, 15]"

definition example_parsed_frame :: "Timestamp \<Rightarrow> SerialFrame" where
  "example_parsed_frame ts =
     \<lparr>timestamp = ts, priority = LOW, transfer_id = 12345678901234567890,
      index = 54321, end_of_transfer = True,
      payload = [83, 113, 117, 101, 101, 122, 101, 32, 109, 97, 121, 111, 110, 110, 97, 105,
                 115, 101, 32, 111, 110, 116, 111, 32, 97, 32, 104, 97, 109, 115, 116, 101, 114],
      source_node_id = Some 123, destination_node_id = Some 456,
      data_specifier = MessageDataSpecifier 4321, data_type_hash = 0xbadc0ffee0ddf00d\<rparr>"

text \<open>The image that \<open>compile_into\<close> chains together for the service frame.\<close>

definition example_service_image :: "byte list" where
  "example_service_image =
     header_without_crc example_service_frame @
     value_as_bytes (CRC32C_new (header_without_crc example_service_frame)) @
     payload example_service_frame @ value_as_bytes (CRC32C_new (payload example_service_frame))"

section \<open>The transport engine\<close>

record SerialTransportStatistics =
  in_bytes :: int
  in_frames :: int
  in_out_of_band_bytes :: int
  out_bytes :: int
  out_frames :: int
  out_transfers :: int
  out_incomplete :: int

text \<open>
  A session specifier is a data specifier with an optional remote node id, as
  \<open>InputSessionSpecifier(frame.data_specifier, source_node_id)\<close> builds it.
\<close>

type_synonym SessionSpecifier = "DataSpecifier \<times> int option"

text \<open>
  Modelled from the spec: \<open>SerialInputSession\<close> and \<open>SerialOutputSession\<close>
  (\<open>_session.py\<close>) are not under src/. The engine only calls \<open>_process_frame(frame)\<close>
  and \<open>close()\<close> on a session. An input session is modelled by the queue of frames it
  has been handed, in arrival order; an output session by the number of times its send
  handler emits each transfer. A session's finaliser removes its entry from the registry.
\<close>

record SerialInputSession =
  processed_frames :: "SerialFrame list"

definition process_frame :: "SerialInputSession \<Rightarrow> SerialFrame \<Rightarrow> SerialInputSession" where
  "process_frame session frame =
     session\<lparr>processed_frames := processed_frames session @ [frame]\<rparr>"

record SerialOutputSession =
  emissions_per_transfer :: int

text \<open>
  The attributes of \<open>SerialTransport\<close> that its methods read or write. The serial
  port is reduced to its \<open>is_open\<close> flag; what a write on it does comes from outside,
  as an \<open>io_event\<close> for each frame.
\<close>

record SerialTransport =
  service_transfer_multiplier :: int
  mtu :: int
  local_node_id :: "int option"
  closed :: bool
  serialization_buffer :: "byte list"
  input_registry :: "SessionSpecifier \<rightharpoonup> SerialInputSession"
  output_registry :: "SessionSpecifier \<rightharpoonup> SerialOutputSession"
  statistics :: SerialTransportStatistics
  port_is_open :: bool

text \<open>
  \<open>SerialTransport.__init__\<close> on a port instance: the range checks, then the initial
  attributes. A port that is not open gives \<open>InvalidMediaConfigurationError\<close>.
\<close>

definition init_SerialTransport :: "bool \<Rightarrow> int option \<Rightarrow> int \<Rightarrow> int \<Rightarrow> error + SerialTransport" where
  "init_SerialTransport serial_port_is_open node_id mtu_arg multiplier =
     (if \<not> (1 \<le> multiplier \<and> multiplier \<le> 5) then Inl ValueError
      else if \<not> (1024 \<le> mtu_arg \<and> mtu_arg \<le> 1024 ^ 3) then Inl ValueError
      else if (case node_id of None \<Rightarrow> False | Some n \<Rightarrow> \<not> (0 \<le> n \<and> n < NODE_ID_MASK + 1))
        then Inl ValueError
      else if \<not> serial_port_is_open then Inl InvalidMediaConfigurationError
      else Inr \<lparr>service_transfer_multiplier = multiplier,
                mtu = mtu_arg,
                local_node_id = node_id,
                closed = False,
                serialization_buffer = replicate 1024 0,
                input_registry = Map.empty,
                output_registry = Map.empty,
                statistics = \<lparr>in_bytes = 0, in_frames = 0, in_out_of_band_bytes = 0,
                  out_bytes = 0, out_frames = 0, out_transfers = 0, out_incomplete = 0\<rparr>,
                port_is_open = True\<rparr>)"

text \<open>
  \<open>close\<close>: sets the flag, closes every session, whose finaliser deletes its registry
  entry, and closes the port if it is open. No exception leaves it.
\<close>

definition close :: "SerialTransport \<Rightarrow> SerialTransport" where
  "close self =
     self\<lparr>closed := True, input_registry := Map.empty, output_registry := Map.empty,
          port_is_open := False\<rparr>"

definition get_input_session ::
  "SerialTransport \<Rightarrow> SessionSpecifier \<Rightarrow> (error + SerialInputSession) \<times> SerialTransport" where
  "get_input_session self specifier =
     (if closed self then (Inl ResourceClosedError, self)
      else case input_registry self specifier of
             Some out \<Rightarrow> (Inr out, self)
           | None \<Rightarrow>
               (let out = \<lparr>processed_frames = []\<rparr>
                in (Inr out, self\<lparr>input_registry := (input_registry self)(specifier \<mapsto> out)\<rparr>)))"

definition get_output_session ::
  "SerialTransport \<Rightarrow> SessionSpecifier \<Rightarrow> (error + SerialOutputSession) \<times> SerialTransport" where
  "get_output_session self specifier =
     (if closed self then (Inl ResourceClosedError, self)
      else case output_registry self specifier of
             Some out \<Rightarrow> (Inr out, self)
           | None \<Rightarrow>
               (let out = \<lparr>emissions_per_transfer =
                            (if is_service (fst specifier) \<and> service_transfer_multiplier self > 1
                             then service_transfer_multiplier self else 1)\<rparr>
                in (Inr out, self\<lparr>output_registry := (output_registry self)(specifier \<mapsto> out)\<rparr>)))"

definition sample_statistics :: "SerialTransport \<Rightarrow> SerialTransportStatistics" where
  "sample_statistics self = statistics self"

text \<open>
  \<open>_handle_received_frame\<close>. The loop runs over the set \<open>{None, frame.source_node_id}\<close>,
  one element when the source is absent and two otherwise; the two keys are then
  different, so the order of the iteration does not show in the result.
\<close>

definition deliver :: "SerialFrame \<Rightarrow> SerialTransport \<Rightarrow> int option \<Rightarrow> SerialTransport" where
  "deliver frame self source =
     (case input_registry self (data_specifier frame, source) of
        None \<Rightarrow> self
      | Some session \<Rightarrow>
          self\<lparr>input_registry :=
            (input_registry self)((data_specifier frame, source) \<mapsto> process_frame session frame)\<rparr>)"

definition handle_received_frame :: "SerialTransport \<Rightarrow> SerialFrame \<Rightarrow> SerialTransport" where
  "handle_received_frame self frame =
     (let self1 = self\<lparr>statistics :=
                    (statistics self)\<lparr>in_frames := in_frames (statistics self) + 1\<rparr>\<rparr>
      in if destination_node_id frame = local_node_id self \<or> destination_node_id frame = None
         then foldl (deliver frame) self1 (remdups [None, source_node_id frame])
         else self1)"

text \<open>
  What the world does while one frame is sent: the reading of \<open>loop.time()\<close>, what
  the write on the port does, and the reading of \<open>Timestamp.now()\<close> after it. A write
  returns the number of bytes written or None, raises \<open>SerialTimeoutException\<close>, or
  raises another exception.
\<close>

datatype write_outcome = WriteReturns "int option" | WriteTimesOut | WriteRaises

record io_event =
  loop_time :: real
  port_write :: write_outcome
  timestamp_now :: Timestamp

text \<open>
  The \<open>try\<close> block around the write: after a write that returns, \<open>tx_ts\<close> keeps
  its value if it has one and takes \<open>Timestamp.now()\<close> otherwise (a Timestamp object
  is always true); \<open>SerialTimeoutException\<close> is caught and sets \<open>num_written\<close>
  to 0; any other exception leaves the block.
\<close>

definition write_attempt ::
  "write_outcome \<Rightarrow> Timestamp option \<Rightarrow> Timestamp \<Rightarrow> error + (int option \<times> Timestamp option)" where
  "write_attempt w tx_ts now =
     (case w of
        WriteReturns num_written \<Rightarrow>
          Inr (num_written, (case tx_ts of None \<Rightarrow> Some now | Some t \<Rightarrow> Some t))
      | WriteTimesOut \<Rightarrow> Inr (Some 0, tx_ts)
      | WriteRaises \<Rightarrow> Inl SerialException)"

text \<open>The growth rule of the scratch buffer at the head of the loop body.\<close>

definition grow_buffer :: "byte list \<Rightarrow> SerialFrame \<Rightarrow> byte list" where
  "grow_buffer buf fr =
     (let min_buffer_size = length (payload fr) * 3
      in if length buf < min_buffer_size then replicate min_buffer_size 0 else buf)"

definition add_out_bytes :: "int \<Rightarrow> SerialTransport \<Rightarrow> SerialTransport" where
  "add_out_bytes n self =
     self\<lparr>statistics := (statistics self)\<lparr>out_bytes := out_bytes (statistics self) + n\<rparr>\<rparr>"

definition add_out_frames :: "int \<Rightarrow> SerialTransport \<Rightarrow> SerialTransport" where
  "add_out_frames n self =
     self\<lparr>statistics := (statistics self)\<lparr>out_frames := out_frames (statistics self) + n\<rparr>\<rparr>"

text \<open>
  The loop of \<open>_send_transfer\<close> over the frames, frame \<open>k\<close> being the next. \<open>Inr\<close>
  is the value of \<open>tx_ts\<close> when the loop ends or breaks, \<open>Inl\<close> an exception raised
  in its body. The compiled frame stays in the scratch buffer; what an exception of
  \<open>compile_into\<close> leaves there is not modelled.
\<close>

fun send_frames ::
  "real \<Rightarrow> (nat \<Rightarrow> io_event) \<Rightarrow> nat \<Rightarrow> SerialFrame list \<Rightarrow> Timestamp option \<Rightarrow> SerialTransport
   \<Rightarrow> (error + Timestamp option) \<times> SerialTransport" where
  "send_frames monotonic_deadline env k [] tx_ts self = (Inr tx_ts, self)"
| "send_frames monotonic_deadline env k (fr # frames) tx_ts self =
     (let buf = grow_buffer (serialization_buffer self) fr in
      case compile_into fr buf of
        Inl e \<Rightarrow> (Inl e, self\<lparr>serialization_buffer := buf\<rparr>)
      | Inr compiled \<Rightarrow>
          (let self1 = self\<lparr>serialization_buffer := compiled @ drop (length compiled) buf\<rparr>;
               timeout = monotonic_deadline - loop_time (env k)
           in if timeout > 0 then
                (case write_attempt (port_write (env k)) tx_ts (timestamp_now (env k)) of
                   Inl e \<Rightarrow> (Inl e, self1)
                 | Inr (num_written, tx_ts1) \<Rightarrow>
                     (let self2 = add_out_bytes (case num_written of None \<Rightarrow> 0 | Some n \<Rightarrow> n) self1;
                          num_written1 = (case num_written of None \<Rightarrow> int (length compiled)
                                          | Some n \<Rightarrow> n)
                      in if num_written1 < int (length compiled) then (Inr None, self2)
                         else send_frames monotonic_deadline env (k + 1) frames tx_ts1
                                (add_out_frames 1 self2)))
              else (Inr None, self1)))"

text \<open>
  \<open>_send_transfer\<close>: the check of the closed flag, the loop, the handler that turns
  an exception into \<open>ResourceClosedError\<close> when the transport is closed by then, and
  the \<open>else\<close> clause that counts the transfer and returns \<open>tx_ts\<close>.
\<close>

definition send_transfer ::
  "SerialTransport \<Rightarrow> SerialFrame list \<Rightarrow> real \<Rightarrow> (nat \<Rightarrow> io_event)
   \<Rightarrow> (error + Timestamp option) \<times> SerialTransport" where
  "send_transfer self frames monotonic_deadline env =
     (if closed self then (Inl ResourceClosedError, self)
      else case send_frames monotonic_deadline env 0 frames None self of
             (Inl e, self1) \<Rightarrow> (Inl (if closed self1 then ResourceClosedError else e), self1)
           | (Inr tx_ts, self1) \<Rightarrow>
               (Inr tx_ts,
                self1\<lparr>statistics :=
                  (case tx_ts of
                     Some t \<Rightarrow> (statistics self1)
                       \<lparr>out_transfers := out_transfers (statistics self1) + 1\<rparr>
                   | None \<Rightarrow> (statistics self1)
                       \<lparr>out_incomplete := out_incomplete (statistics self1) + 1\<rparr>)\<rparr>))"

text \<open>
  The exception handler of the reader thread: on an exception it sets the closed flag
  and closes the port.
\<close>

definition reader_failure :: "SerialTransport \<Rightarrow> SerialTransport" where
  "reader_failure self = self\<lparr>closed := True, port_is_open := False\<rparr>"

text \<open>The operations on the engine, and a run of them from a state.\<close>

datatype operation =
    Close
  | GetInputSession SessionSpecifier
  | GetOutputSession SessionSpecifier
  | SampleStatistics
  | SendTransfer "SerialFrame list" real "nat \<Rightarrow> io_event"
  | HandleReceivedFrame SerialFrame
  | ReaderFailure

datatype response =
    Nothing
  | InputSession SerialInputSession
  | OutputSession SerialOutputSession
  | Statistics SerialTransportStatistics
  | TransferTimestamp "Timestamp option"

fun perform :: "SerialTransport \<Rightarrow> operation \<Rightarrow> (error + response) \<times> SerialTransport" where
  "perform self Close = (Inr Nothing, close self)"
| "perform self (GetInputSession specifier) =
     (case get_input_session self specifier of
        (Inl e, self1) \<Rightarrow> (Inl e, self1) | (Inr out, self1) \<Rightarrow> (Inr (InputSession out), self1))"
| "perform self (GetOutputSession specifier) =
     (case get_output_session self specifier of
        (Inl e, self1) \<Rightarrow> (Inl e, self1) | (Inr out, self1) \<Rightarrow> (Inr (OutputSession out), self1))"
| "perform self SampleStatistics = (Inr (Statistics (sample_statistics self)), self)"
| "perform self (SendTransfer frames monotonic_deadline env) =
     (case send_transfer self frames monotonic_deadline env of
        (Inl e, self1) \<Rightarrow> (Inl e, self1)
      | (Inr tx_ts, self1) \<Rightarrow> (Inr (TransferTimestamp tx_ts), self1))"
| "perform self (HandleReceivedFrame frame) = (Inr Nothing, handle_received_frame self frame)"
| "perform self ReaderFailure = (Inr Nothing, reader_failure self)"

fun run :: "SerialTransport \<Rightarrow> operation list \<Rightarrow> SerialTransport" where
  "run self [] = self"
| "run self (op # ops) = run (snd (perform self op)) ops"

text \<open>
  The cases of one frame of a transfer, in the spec's words: its write completes fully
  (it returns None or at least the number of bytes requested), or the transfer aborts
  (the deadline budget is exhausted before the write, the write times out, or it writes
  fewer bytes than requested), or the write raises. \<open>n\<close> is the number of bytes of
  the compiled frame.
\<close>

datatype frame_fate = WrittenFully | Aborted | Raised

definition frame_fate :: "real \<Rightarrow> io_event \<Rightarrow> nat \<Rightarrow> frame_fate" where
  "frame_fate monotonic_deadline ev n =
     (if monotonic_deadline - loop_time ev > 0 then
        (case port_write ev of
           WriteReturns None \<Rightarrow> WrittenFully
         | WriteReturns (Some m) \<Rightarrow> if m < int n then Aborted else WrittenFully
         | WriteTimesOut \<Rightarrow> Aborted
         | WriteRaises \<Rightarrow> Raised)
      else Aborted)"

text \<open>The number of bytes a frame's write reports, 0 when it reports none.\<close>

definition bytes_written :: "real \<Rightarrow> io_event \<Rightarrow> int" where
  "bytes_written monotonic_deadline ev =
     (if monotonic_deadline - loop_time ev > 0 then
        (case port_write ev of WriteReturns (Some m) \<Rightarrow> m | _ \<Rightarrow> 0)
      else 0)"

text \<open>The number of leading frames of a transfer whose writes complete fully.\<close>

fun written_fully :: "real \<Rightarrow> (nat \<Rightarrow> io_event) \<Rightarrow> nat \<Rightarrow> SerialFrame list \<Rightarrow> nat" where
  "written_fully monotonic_deadline env k [] = 0"
| "written_fully monotonic_deadline env k (fr # frames) =
     (if frame_fate monotonic_deadline (env k) (compiled_length fr) = WrittenFully
      then Suc (written_fully monotonic_deadline env (k + 1) frames) else 0)"

text \<open>
  The value of \<open>tx_ts\<close> after a loop in which every write completed fully: the
  value it had, or else the timestamp taken after the first write.
\<close>

definition tx_after :: "Timestamp option \<Rightarrow> (nat \<Rightarrow> io_event) \<Rightarrow> nat \<Rightarrow> SerialFrame list \<Rightarrow> Timestamp option" where
  "tx_after tx env k frames =
     (case tx of Some t \<Rightarrow> Some t
      | None \<Rightarrow> if frames = [] then None else Some (timestamp_now (env k)))"

text \<open>A transport as the constructor leaves it, and a world in which every write succeeds.\<close>

definition example_transport :: SerialTransport where
  "example_transport =
     \<lparr>service_transfer_multiplier = 2, mtu = 1024 ^ 3, local_node_id = Some 42,
      closed = False, serialization_buffer = replicate 1024 0,
      input_registry = Map.empty, output_registry = Map.empty,
      statistics = \<lparr>in_bytes = 0, in_frames = 0, in_out_of_band_bytes = 0,
        out_bytes = 0, out_frames = 0, out_transfers = 0, out_incomplete = 0\<rparr>,
      port_is_open = True\<rparr>"

definition example_env :: "nat \<Rightarrow> io_event" where
  "example_env k = \<lparr>loop_time = 1, port_write = WriteReturns (Some 100),
     timestamp_now = Timestamp 5 (int k)\<rparr>"

definition example_env_timeout :: "nat \<Rightarrow> io_event" where
  "example_env_timeout k = \<lparr>loop_time = 1,
     port_write = (if k = 0 then WriteReturns (Some 100) else WriteTimesOut),
     timestamp_now = Timestamp 5 (int k)\<rparr>"

text \<open>
  The example transport with two input sessions for the data specifier of the service
  frame: one for the source node 158 and the promiscuous one.
\<close>

definition example_routing_transport :: SerialTransport where
  "example_routing_transport =
     example_transport\<lparr>input_registry :=
       [(ServiceDataSpecifier 123 RESPONSE, Some 158) \<mapsto> \<lparr>processed_frames = []\<rparr>,
        (ServiceDataSpecifier 123 RESPONSE, None) \<mapsto> \<lparr>processed_frames = []\<rparr>]\<rparr>"

section \<open>Properties of the CRC\<close>

lemma crc_shift_xor: "crc_shift (a XOR b) = crc_shift a XOR crc_shift b"
  by (simp add: crc_shift_def bit_xor_iff ac_simps)

lemma crc_shifts_xor: "crc_shifts n (a XOR b) = crc_shifts n a XOR crc_shifts n b"
  by (induction n arbitrary: a b) (simp_all add: crc_shift_xor)

lemma crc_shifts_low_zero: "take_bit n y = 0 \<Longrightarrow> crc_shifts n y = drop_bit n y"
proof (induction n arbitrary: y)
  case 0
  then show ?case by simp
next
  case (Suc n)
  from Suc.prems have b0: "\<not> bit y 0"
    by (metis bit_take_bit_iff bit_0_eq  zero_less_Suc bot_apply bot_bool_def)
  have "take_bit n (drop_bit 1 y) = 0"
    using Suc.prems by (simp add: take_bit_drop_bit flip: drop_bit_take_bit) 
  then show ?case using Suc.IH[of "drop_bit 1 y"] b0
    by (simp add: crc_shift_def)
qed

lemma bit_31_crc_shift: "bit (crc_shift x) 31 = bit x 0"
  by (simp add: crc_shift_def bit_xor_iff bit_drop_bit_eq CRC32C_POLY_def bit_word_iff_drop_bit_and)

lemma drop_bit_1_eq_crc_shift:
  "drop_bit 1 x = (if bit x 0 then crc_shift x XOR CRC32C_POLY else crc_shift x)"
  by (simp add: crc_shift_def xor.assoc)

lemma crc_shift_inj: 
  assumes "crc_shift a = crc_shift b" shows "a = b"
proof -
  have b0: "bit a 0 = bit b 0" using assms bit_31_crc_shift by metis
  have d: "drop_bit 1 a = drop_bit 1 b"
    unfolding drop_bit_1_eq_crc_shift [of a] drop_bit_1_eq_crc_shift [of b] using assms b0 by simp
  show ?thesis
  proof (rule bit_eqI)
    fix n
    show "bit a n = bit b n"
    proof (cases n)
      case 0 then show ?thesis using b0 by simp
    next
      case (Suc m)
      have "bit (drop_bit 1 a) m = bit (drop_bit 1 b) m" using d by simp
      then show ?thesis using Suc by (simp add: bit_drop_bit_eq)
    qed
  qed
qed

lemma crc_shifts_inj: "crc_shifts n a = crc_shifts n b \<Longrightarrow> a = b"
  by (induction n arbitrary: a b) (auto dest: crc_shift_inj)

lemma xor_right_cancel: "(v :: 32 word) XOR c = w XOR c \<Longrightarrow> v = w"
  by (metis xor.assoc xor_self_eq xor.right_neutral)

lemma ucast_byte_inj: "(ucast (b :: byte) :: 32 word) = ucast c \<Longrightarrow> b = c"
proof -
  assume a: "(ucast b :: 32 word) = ucast c"
  have "(ucast (ucast b :: 32 word) :: byte) = b" "(ucast (ucast c :: 32 word) :: byte) = c"
    by (simp_all add: ucast_up_ucast_id is_up)
  with a show ?thesis by metis
qed

lemma crc_add_byte_inj_state: "crc_add_byte v b = crc_add_byte w b \<Longrightarrow> v = w"
  by (auto simp: crc_add_byte_def dest!: crc_shifts_inj xor_right_cancel)

lemma crc_add_inj_state: "crc_add v bs = crc_add w bs \<Longrightarrow> v = w"
  unfolding crc_add_def by (induction bs arbitrary: v w) (auto dest: crc_add_byte_inj_state)


lemma xor_left_cancel: "(c :: 32 word) XOR v = c XOR w \<Longrightarrow> v = w"
  by (metis xor.left_commute xor_self_eq xor.right_neutral)

lemma crc_add_byte_inj_byte: "crc_add_byte v b = crc_add_byte v c \<Longrightarrow> b = c"
  by (auto simp: crc_add_byte_def dest!: crc_shifts_inj xor_left_cancel ucast_byte_inj)

lemma crc_add_append: "crc_add v (xs @ ys) = crc_add (crc_add v xs) ys"
  by (simp add: crc_add_def)

lemma crc_add_update_neq:
  assumes "i < length bs" "c \<noteq> bs ! i"
  shows "crc_add v (bs[i := c]) \<noteq> crc_add v bs"
proof -
  have bs: "bs = take i bs @ bs ! i # drop (Suc i) bs"
    using assms(1) by (simp add: id_take_nth_drop)
  have upd: "bs[i := c] = take i bs @ c # drop (Suc i) bs"
    using assms(1) by (simp add: upd_conv_take_nth_drop)
  let ?s = "crc_add v (take i bs)"
  have "crc_add_byte ?s c \<noteq> crc_add_byte ?s (bs ! i)"
    using assms(2) crc_add_byte_inj_byte by blast
  then have "crc_add (crc_add_byte ?s c) (drop (Suc i) bs) \<noteq> crc_add (crc_add_byte ?s (bs ! i)) (drop (Suc i) bs)"
    using crc_add_inj_state by blast
  then have "crc_add v (take i bs @ c # drop (Suc i) bs) \<noteq> crc_add v (take i bs @ bs ! i # drop (Suc i) bs)"
    by (simp add: crc_add_def)
  then show ?thesis using bs upd by metis
qed

lemma word_of_int_mod_256: "(word_of_int (k mod 256) :: byte) = word_of_int k"
  by (simp add: word_of_int_eq_iff take_bit_eq_mod)

lemma uint_div_256: "uint (w :: 32 word) div 256 = uint (drop_bit 8 w)"
  by (simp add: drop_bit_eq_div uint_div_distrib flip: drop_bit_eq_div [of 8 w, simplified])

lemma to_bytes_le_4: 
  "to_bytes_le 4 k = [word_of_int k, word_of_int (k div 256), word_of_int (k div 256 div 256), word_of_int (k div 256 div 256 div 256)]"
proof -
  have "(4::nat) = Suc (Suc (Suc (Suc 0)))" by simp
  then show ?thesis by (simp only: to_bytes_le.simps word_of_int_mod_256)
qed

lemma to_bytes_le_4_uint:
  "to_bytes_le 4 (uint (w :: 32 word)) = [ucast w, ucast (drop_bit 8 w), ucast (drop_bit 16 w), ucast (drop_bit 24 w)]"
proof -
  have a: "uint w div 256 = uint (drop_bit 8 w)" by (rule uint_div_256)
  have "uint (drop_bit 8 w) div 256 = uint (drop_bit 8 (drop_bit 8 w))" by (rule uint_div_256)
  then have b: "uint (drop_bit 8 w) div 256 = uint (drop_bit 16 w)" by (simp only: drop_bit_drop_bit) simp
  have "uint (drop_bit 16 w) div 256 = uint (drop_bit 8 (drop_bit 16 w))" by (rule uint_div_256)
  then have c: "uint (drop_bit 16 w) div 256 = uint (drop_bit 24 w)" by (simp only: drop_bit_drop_bit) simp
  show ?thesis unfolding to_bytes_le_4 a b c ucast_eq by (rule refl)
qed

lemma residue_xor:
  "n \<le> 24 \<Longrightarrow> drop_bit n v XOR ucast (ucast (drop_bit n (NOT v)) :: byte) = push_bit 8 (drop_bit (n + 8) v) XOR mask 8" for v :: "32 word"
  by (rule bit_word_eqI) (auto simp: bit_simps)

lemma drop_push_8: "drop_bit 8 (push_bit 8 (drop_bit (n + 8) v)) = drop_bit (n + 8) v" for v :: "32 word"
  by (rule bit_word_eqI) (auto simp: bit_simps dest: bit_imp_le_length)

lemma residue_step:
  assumes "n \<le> 24"
  shows "crc_add_byte (drop_bit n v XOR c) (ucast (drop_bit n (NOT v))) = drop_bit (n + 8) v XOR crc_shifts 8 (c XOR 0xFF)"
proof -
  let ?b = "ucast (ucast (drop_bit n (NOT v)) :: byte) :: 32 word"
  let ?p = "push_bit 8 (drop_bit (n + 8) v)"
  have m: "(mask 8 :: 32 word) = 0xFF" by (simp add: mask_eq_exp_minus_1)
  have "(drop_bit n v XOR c) XOR ?b = (drop_bit n v XOR ?b) XOR c"
    by (simp add: ac_simps)
  also have "\<dots> = (?p XOR mask 8) XOR c"
    by (simp only: residue_xor [OF assms])
  also have "\<dots> = ?p XOR (c XOR 0xFF)"
    by (simp add: m ac_simps)
  finally have e: "(drop_bit n v XOR c) XOR ?b = ?p XOR (c XOR 0xFF)" .
  have "take_bit 8 ?p = 0"
    by (rule bit_word_eqI) (auto simp: bit_simps)
  then have "crc_shifts 8 ?p = drop_bit (n + 8) v"
    using crc_shifts_low_zero [of 8 ?p] drop_push_8 [of n v] by simp
  then have "crc_shifts 8 (?p XOR (c XOR 0xFF)) = drop_bit (n + 8) v XOR crc_shifts 8 (c XOR 0xFF)"
    by (simp only: crc_shifts_xor [of 8 ?p])
  then show ?thesis
    by (simp only: crc_add_byte_def e)
qed

lemma not_eq_xor_ones: "v XOR 0xFFFFFFFF = NOT v" for v :: "32 word"
proof -
  have "(0xFFFFFFFF :: 32 word) = - 1" by simp
  then show ?thesis by (simp only: bit.xor_one_right)
qed

lemma residue_const: "crc_shifts 8 (crc_shifts 8 (crc_shifts 8 (crc_shifts 8 0xFF XOR 0xFF) XOR 0xFF) XOR 0xFF) = CRC32C_RESIDUE"
  by code_simp

lemma crc_residue: "crc_add v (value_as_bytes v) = CRC32C_RESIDUE"
proof -
  have s0: "crc_add_byte v (ucast (NOT v)) = drop_bit 8 v XOR crc_shifts 8 0xFF"
    using residue_step [of 0 v 0] by simp
  have s1: "crc_add_byte (drop_bit 8 v XOR c) (ucast (drop_bit 8 (NOT v))) = drop_bit 16 v XOR crc_shifts 8 (c XOR 0xFF)" for c
    using residue_step [of 8 v c] by simp
  have s2: "crc_add_byte (drop_bit 16 v XOR c) (ucast (drop_bit 16 (NOT v))) = drop_bit 24 v XOR crc_shifts 8 (c XOR 0xFF)" for c
    using residue_step [of 16 v c] by simp
  have s3: "crc_add_byte (drop_bit 24 v XOR c) (ucast (drop_bit 24 (NOT v))) = crc_shifts 8 (c XOR 0xFF)" for c
    using residue_step [of 24 v c] by simp
  have "crc_add v (value_as_bytes v) = crc_add v [ucast (NOT v), ucast (drop_bit 8 (NOT v)), ucast (drop_bit 16 (NOT v)), ucast (drop_bit 24 (NOT v))]"
    by (simp only: value_as_bytes_def crc_value_def not_eq_xor_ones to_bytes_le_4_uint)
  also have "\<dots> = crc_shifts 8 (crc_shifts 8 (crc_shifts 8 (crc_shifts 8 0xFF XOR 0xFF) XOR 0xFF) XOR 0xFF)"
    by (simp only: crc_add_def foldl.simps s0 s1 s2 s3)
  finally show ?thesis by (simp only: residue_const)
qed

section \<open>Packing and unpacking\<close>

lemma length_to_bytes_le: "length (to_bytes_le n v) = n"
  by (induction n arbitrary: v) simp_all

lemma uint_word_of_int_mod_256: "uint (word_of_int (v mod 256) :: byte) = v mod 256"
  by (simp add: uint_word_of_int)

lemma fits_Suc: "fits (Suc n) v \<Longrightarrow> fits n (v div 256)"
proof -
  assume a: "fits (Suc n) v"
  then have "0 \<le> v" "v < 256 * 2 ^ (8 * n)" by (simp_all add: fits_def power_add)
  then have "0 \<le> v div 256" "v div 256 < 2 ^ (8 * n)" by linarith+
  then show ?thesis by (simp add: fits_def)
qed

lemma from_to_bytes_le: "fits n v \<Longrightarrow> from_bytes_le (to_bytes_le n v) = v"
proof (induction n arbitrary: v)
  case 0
  then show ?case by (simp add: fits_def)
next
  case (Suc n)
  have "from_bytes_le (to_bytes_le n (v div 256)) = v div 256"
    using Suc.IH [OF fits_Suc [OF Suc.prems]] .
  then show ?case by (simp add: uint_word_of_int_mod_256)
qed

lemma from_bytes_le_bounds: "0 \<le> from_bytes_le bs \<and> from_bytes_le bs < 2 ^ (8 * length bs)"
proof (induction bs)
  case Nil
  then show ?case by simp
next
  case (Cons b bs)
  have "0 \<le> uint b" "uint b < 256" using uint_lt2p [of b] by simp_all
  then show ?case using Cons by (simp add: power_add)
qed

lemma unpack_field_append:
  "length xs = off \<Longrightarrow> length ys = n \<Longrightarrow> unpack_field (xs @ ys @ zs) off n = from_bytes_le ys"
  by (simp add: unpack_field_def)

lemma not_bit_int_above:
  assumes "0 \<le> k" "k < 2 ^ m" "m \<le> n"
  shows "\<not> bit (k :: int) n"
proof -
  have "take_bit m k = k" using assms by (simp add: take_bit_int_eq_self)
  then have "bit k n = bit (take_bit m k) n" by simp
  then show ?thesis using assms(3) by (simp add: bit_take_bit_iff)
qed

lemma bit_int_numerals:
  "bit (16384 :: int) n = (n = 14)"
  "bit (32768 :: int) n = (n = 15)"
  "bit (2147483648 :: int) n = (n = 31)"
proof -
  have "(16384 :: int) = 2 ^ 14" "(32768 :: int) = 2 ^ 15" "(2147483648 :: int) = 2 ^ 31"
    by simp_all
  then show "bit (16384 :: int) n = (n = 14)" "bit (32768 :: int) n = (n = 15)"
    "bit (2147483648 :: int) n = (n = 31)"
    by (simp_all only: bit_exp_iff) simp_all
qed

lemma bit_int_below:
  assumes "0 \<le> k" "k < 2 ^ m" "bit (k :: int) n"
  shows "n < m"
  using not_bit_int_above [OF assms(1,2), of n] assms(3) by (cases "n < m") simp_all

lemma and_bit15_message:
  assumes "0 \<le> sid" "sid \<le> 32767"
  shows "sid AND push_bit 15 1 = (0 :: int)"
proof (rule bit_eqI)
  fix n
  have "\<not> bit sid 15" using assms by (intro not_bit_int_above [of sid 15]) simp_all
  then show "bit (sid AND push_bit 15 1) n = bit (0::int) n"
    by (auto simp: bit_simps bit_int_numerals)
qed

lemma service_bits:
  fixes sid :: int and r :: Role
  assumes "0 \<le> sid" "sid \<le> 511"
  defines "x \<equiv> push_bit 15 1 OR (if r = RESPONSE then push_bit 14 1 else 0) OR sid"
  shows "x AND push_bit 15 1 \<noteq> 0"
  and "x AND 511 = sid"
  and "(x AND push_bit 14 1 \<noteq> 0) = (r = RESPONSE)"
  and "0 \<le> x"
  and "x < 65536"
proof -
  have hi: "\<not> bit sid n" if "9 \<le> n" for n
    using assms that by (intro not_bit_int_above [of sid 9]) simp_all
  have lo: "n < 9" if "bit sid n" for n
    using assms that by (intro bit_int_below [of sid 9 n]) simp_all
  have b15: "bit x 15" by (simp add: x_def bit_simps bit_int_numerals)
  have b14: "bit x 14 = (r = RESPONSE)" using hi [of 14] by (simp add: x_def bit_simps bit_int_numerals)
  have "bit (x AND push_bit 15 1) 15" using b15 by (simp add: bit_simps bit_int_numerals)
  then show "x AND push_bit 15 1 \<noteq> 0" by (metis bit_0_eq bot_apply bot_bool_def)
  have "x AND mask 9 = sid"
    by (rule bit_eqI) (auto simp: x_def bit_simps bit_int_numerals simp flip: take_bit_eq_mask dest: lo)
  then show "x AND 511 = sid" by (simp add: mask_eq_exp_minus_1)
  have "bit (x AND push_bit 14 1) n = (n = 14 \<and> r = RESPONSE)" for n
    using b14 by (auto simp: bit_simps bit_int_numerals)
  then show "(x AND push_bit 14 1 \<noteq> 0) = (r = RESPONSE)"
    by (metis bit_0_eq bot_apply bot_bool_def bit_eq_iff)
  show "0 \<le> x" using assms by (simp add: x_def)
  have "x < 2 ^ 16" unfolding x_def using assms
    by (intro OR_upper) (auto simp: or_nonnegative_int_iff)
  then show "x < 65536" by simp
qed

lemma index_eot_bits:
  fixes i :: int and e :: bool
  assumes "0 \<le> i" "i \<le> 2 ^ 31 - 1"
  defines "x \<equiv> i OR (if e then push_bit 31 1 else 0)"
  shows "x AND (2 ^ 31 - 1) = i"
  and "(x AND push_bit 31 1 \<noteq> 0) = e"
  and "0 \<le> x"
  and "x < 2 ^ 32"
proof -
  have hi: "\<not> bit i n" if "31 \<le> n" for n
    using assms that by (intro not_bit_int_above [of i 31]) simp_all
  have lo: "n < 31" if "bit i n" for n
    using assms that by (intro bit_int_below [of i 31 n]) simp_all
  have "x AND mask 31 = i"
    by (rule bit_eqI) (auto simp: x_def bit_simps bit_int_numerals simp flip: take_bit_eq_mask dest: lo)
  then show "x AND (2 ^ 31 - 1) = i" by (simp add: mask_eq_exp_minus_1)
  have "bit (x AND push_bit 31 1) n = (n = 31 \<and> e)" for n
    using hi [of 31] by (auto simp: x_def bit_simps bit_int_numerals)
  then show "(x AND push_bit 31 1 \<noteq> 0) = e"
    by (metis bit_0_eq bot_apply bot_bool_def bit_eq_iff)
  show "0 \<le> x" using assms by (simp add: x_def)
  show "x < 2 ^ 32" unfolding x_def using assms
    by (intro OR_upper) (auto simp: or_nonnegative_int_iff)
qed

section \<open>The image of a valid frame decodes to the frame\<close>

lemma valid_frameD:
  assumes "valid_frame f"
  shows "case source_node_id f of None \<Rightarrow> True | Some n \<Rightarrow> 0 \<le> n \<and> n \<le> 4095"
    and "case destination_node_id f of None \<Rightarrow> True | Some n \<Rightarrow> 0 \<le> n \<and> n \<le> 4095"
    and "is_service (data_specifier f) \<Longrightarrow> source_node_id f \<noteq> None"
    and "0 \<le> data_type_hash f" "data_type_hash f < 2 ^ 64"
    and "0 \<le> transfer_id f" "transfer_id f < 2 ^ 64"
    and "0 \<le> index f" "index f \<le> 2 ^ 31 - 1"
    and "valid_data_specifier (data_specifier f)"
  using assms
  by (auto simp: valid_frame_def post_init_def NODE_ID_MASK_def DATA_TYPE_HASH_MASK_def
      TRANSFER_ID_MASK_def INDEX_MASK_def split: option.splits if_splits)

lemma fits_simps:
  "fits 1 v = (0 \<le> v \<and> v < 256)"
  "fits (Suc 0) v = (0 \<le> v \<and> v < 256)"
  "fits 2 v = (0 \<le> v \<and> v < 65536)"
  "fits 4 v = (0 \<le> v \<and> v < 2 ^ 32)"
  "fits 8 v = (0 \<le> v \<and> v < 2 ^ 64)"
  by (simp_all add: fits_def)

lemma int_of_Priority_range: "0 \<le> int_of_Priority p \<and> int_of_Priority p < 8"
  by (cases p) simp_all

lemma Priority_of_int_of_Priority: "Priority_of_int (int_of_Priority p) = Inr p"
  by (cases p) (simp_all add: Priority_of_int_def)

lemma encode_data_specifier_range:
  "valid_data_specifier ds \<Longrightarrow> 0 \<le> encode_data_specifier ds \<and> encode_data_specifier ds < 65536"
proof (cases ds)
  case (MessageDataSpecifier sid)
  assume "valid_data_specifier ds"
  with MessageDataSpecifier show ?thesis by (simp add: SUBJECT_ID_MASK_def)
next
  case (ServiceDataSpecifier sid r)
  assume "valid_data_specifier ds"
  with ServiceDataSpecifier have "0 \<le> sid" "sid \<le> 511" by (simp_all add: SERVICE_ID_MASK_def)
  from service_bits(4,5) [OF this, of r] ServiceDataSpecifier show ?thesis by simp
qed

lemma length_header_without_crc: "length (header_without_crc f) = 28"
  by (simp add: header_without_crc_def length_to_bytes_le)

lemma length_value_as_bytes: "length (value_as_bytes v) = 4"
  by (simp add: value_as_bytes_def length_to_bytes_le)

lemma nid_word_range: 
  "(case n of None \<Rightarrow> True | Some k \<Rightarrow> 0 \<le> k \<and> k \<le> 4095) \<Longrightarrow> 0 \<le> nid_word n \<and> nid_word n < 65536"
  by (simp add: nid_word_def ANONYMOUS_NODE_ID_def split: option.splits)

lemma valid_frame_fits:
  assumes "valid_frame f"
  shows "fits 1 VERSION" "fits 1 (int_of_Priority (priority f))"
    "fits 2 (nid_word (source_node_id f))" "fits 2 (nid_word (destination_node_id f))"
    "fits 2 (encode_data_specifier (data_specifier f))" "fits 8 (data_type_hash f)"
    "fits 8 (transfer_id f)" "fits 4 (index_eot_word f)"
proof -
  note v = valid_frameD [OF assms]
  show "fits 1 VERSION" by (simp add: fits_simps VERSION_def)
  show "fits 1 (int_of_Priority (priority f))"
    using int_of_Priority_range [of "priority f"] by (simp add: fits_simps)
  show "fits 2 (nid_word (source_node_id f))" using nid_word_range [OF v(1)] by (simp add: fits_simps)
  show "fits 2 (nid_word (destination_node_id f))" using nid_word_range [OF v(2)] by (simp add: fits_simps)
  show "fits 2 (encode_data_specifier (data_specifier f))"
    using encode_data_specifier_range [OF v(10)] by (simp add: fits_simps)
  show "fits 8 (data_type_hash f)" using v(4,5) by (simp add: fits_simps)
  show "fits 8 (transfer_id f)" using v(6,7) by (simp add: fits_simps)
  show "fits 4 (index_eot_word f)"
    using index_eot_bits(3,4) [OF v(8,9), of "end_of_transfer f"] by (simp add: fits_simps index_eot_word_def)
qed

lemma frame_image_valid:
  assumes "valid_frame f"
  shows "frame_image f = Inr (header_without_crc f @ value_as_bytes (CRC32C_new (header_without_crc f)) @
           payload f @ value_as_bytes (CRC32C_new (payload f)))"
  using valid_frame_fits [OF assms]
  by (simp add: frame_image_def pack_header_def Let_def header_without_crc_def nid_word_def
      index_eot_word_def length_to_bytes_le length_value_as_bytes HEADER_SIZE_def CRC_SIZE_BYTES_def)

lemma unpack_header_fields:
  assumes "valid_frame f"
  defines "h \<equiv> header_without_crc f"
  shows "unpack_field h 0 1 = VERSION"
    "unpack_field h 1 1 = int_of_Priority (priority f)"
    "unpack_field h 2 2 = nid_word (source_node_id f)"
    "unpack_field h 4 2 = nid_word (destination_node_id f)"
    "unpack_field h 6 2 = encode_data_specifier (data_specifier f)"
    "unpack_field h 8 8 = data_type_hash f"
    "unpack_field h 16 8 = transfer_id f"
    "unpack_field h 24 4 = index_eot_word f"
  using valid_frame_fits [OF assms(1)]
  by (simp_all add: h_def header_without_crc_def unpack_field_def length_to_bytes_le from_to_bytes_le
      del: to_bytes_le.simps)

lemma unpack_field_take_append:
  "off + n \<le> length h \<Longrightarrow> length h \<le> m \<Longrightarrow> unpack_field (take m (h @ x)) off n = unpack_field h off n"
  by (simp add: unpack_field_def take_drop)

lemma CRC32C_new_append_crc: "check_residue (CRC32C_new (bs @ value_as_bytes (CRC32C_new bs)))"
  by (simp add: check_residue_def CRC32C_new_def crc_add_append crc_residue)

lemma decode_data_specifier:
  assumes "valid_data_specifier ds"
  defines "x \<equiv> encode_data_specifier ds"
  shows "(if x AND push_bit 15 1 = 0 then new_MessageDataSpecifier x
          else new_ServiceDataSpecifier (x AND SERVICE_ID_MASK)
                 (if x AND push_bit 14 1 \<noteq> 0 then RESPONSE else REQUEST)) = Inr ds"
proof (cases ds)
  case (MessageDataSpecifier sid)
  with assms(1) have r: "0 \<le> sid" "sid \<le> 32767" by (simp_all add: SUBJECT_ID_MASK_def)
  from and_bit15_message [OF r] r show ?thesis
    unfolding x_def MessageDataSpecifier
    by (simp only: encode_data_specifier.simps new_MessageDataSpecifier_def SUBJECT_ID_MASK_def if_True simp_thms)
next
  case (ServiceDataSpecifier sid r)
  with assms(1) have b: "0 \<le> sid" "sid \<le> 511" by (simp_all add: SERVICE_ID_MASK_def)
  have rr: "(if r = RESPONSE then RESPONSE else REQUEST) = r" by (cases r) simp_all
  from service_bits(1,2,3) [OF b, of r] b rr show ?thesis
    unfolding x_def ServiceDataSpecifier
    by (simp only: encode_data_specifier.simps new_ServiceDataSpecifier_def SERVICE_ID_MASK_def if_True if_False simp_thms)
qed

lemma decode_nid:
  "(case n of None \<Rightarrow> True | Some k \<Rightarrow> 0 \<le> k \<and> k \<le> 4095) \<Longrightarrow>
   (if nid_word n = ANONYMOUS_NODE_ID then None else Some (nid_word n)) = n"
  by (auto simp: nid_word_def ANONYMOUS_NODE_ID_def split: option.splits)

lemma post_init_timestamp:
  "post_init f = Inr f \<Longrightarrow> post_init (f\<lparr>timestamp := ts\<rparr>) = Inr (f\<lparr>timestamp := ts\<rparr>)"
  by (simp add: post_init_def split: if_splits)

lemma unpack_field_append1:
  "off + n \<le> length h \<Longrightarrow> unpack_field (h @ x) off n = unpack_field h off n"
  by (simp add: unpack_field_def)

lemma parse_frame_image:
  assumes v: "valid_frame f"
  shows "parse_from_unescaped_image
           (header_without_crc f @ value_as_bytes (CRC32C_new (header_without_crc f)) @
            payload f @ value_as_bytes (CRC32C_new (payload f))) ts
         = Inr (Some (f\<lparr>timestamp := ts\<rparr>))"
proof -
  let ?h = "header_without_crc f"
  let ?hc = "?h @ value_as_bytes (CRC32C_new ?h)"
  let ?pc = "payload f @ value_as_bytes (CRC32C_new (payload f))"
  let ?img = "?h @ value_as_bytes (CRC32C_new ?h) @ ?pc"
  note d = valid_frameD [OF v]
  note u = unpack_header_fields [OF v]
  have len: "length ?hc = 32" by (simp add: length_header_without_crc length_value_as_bytes)
  have tk: "take HEADER_SIZE ?img = ?hc" and dr: "drop HEADER_SIZE ?img = ?pc"
    by (simp_all add: HEADER_SIZE_def CRC_SIZE_BYTES_def length_header_without_crc length_value_as_bytes)
  have big: "\<not> length ?img < NUM_OVERHEAD_BYTES_EXCEPT_DELIMITERS_AND_ESCAPING"
    by (simp add: NUM_OVERHEAD_BYTES_EXCEPT_DELIMITERS_AND_ESCAPING_def HEADER_SIZE_def
        CRC_SIZE_BYTES_def length_header_without_crc length_value_as_bytes)
  have pl: "take (length ?pc - CRC_SIZE_BYTES) ?pc = payload f"
    by (simp add: CRC_SIZE_BYTES_def length_value_as_bytes)
  have uf: "unpack_field ?hc off n = unpack_field ?h off n" if "off + n \<le> 28" for off n
    using that by (simp add: unpack_field_append1 length_header_without_crc)
  have ie: "index_eot_word f AND INDEX_MASK = index f"
    "(index_eot_word f AND push_bit 31 1 \<noteq> 0) = end_of_transfer f"
    using index_eot_bits(1,2) [OF d(8,9), of "end_of_transfer f"]
    by (simp_all only: index_eot_word_def INDEX_MASK_def)
  have pi: "post_init (f\<lparr>timestamp := ts\<rparr>) = Inr (f\<lparr>timestamp := ts\<rparr>)"
    using v by (simp add: valid_frame_def post_init_timestamp)
  have rec: "\<lparr>timestamp = ts, priority = priority f, transfer_id = transfer_id f,
             index = index f, end_of_transfer = end_of_transfer f, payload = payload f,
             source_node_id = source_node_id f, destination_node_id = destination_node_id f,
             data_specifier = data_specifier f, data_type_hash = data_type_hash f\<rparr>
            = f\<lparr>timestamp := ts\<rparr>"
    by simp
  show ?thesis
    unfolding parse_from_unescaped_image_def
    by (simp only: big if_False Let_def tk dr pl CRC32C_new_append_crc not_True_eq_False
        uf u simp_thms decode_data_specifier [OF d(10)] sum.case
        Priority_of_int_of_Priority decode_nid [OF d(1)] decode_nid [OF d(2)] ie rec pi
        except_ValueError.simps) (simp add: VERSION_def)?
qed

section \<open>Escaping\<close>

lemma escape_simps: "escape [] = []" "escape (b # bs) = escape_byte b @ escape bs"
  by (simp_all add: escape_def)

lemma length_escape_byte: "length (escape_byte b) = (if b \<in> set escapees then 2 else 1)"
  by (simp add: escape_byte_def escapees_def)

lemma length_escape_bounds: "length bs \<le> length (escape bs) \<and> length (escape bs) \<le> 2 * length bs"
  by (induction bs) (auto simp: escape_simps length_escape_byte)

lemma list_update_split: "i < length buf \<Longrightarrow> buf[i := x] = take i buf @ x # drop (Suc i) buf"
  by (rule upd_conv_take_nth_drop)

lemma write_escaped_spec:
  "i + length (escape bs) \<le> length buf \<Longrightarrow>
   write_escaped bs buf i =
     Inr (take i buf @ escape bs @ drop (i + length (escape bs)) buf, i + length (escape bs))"
proof (induction bs arbitrary: buf i)
  case Nil
  then show ?case by (simp add: escape_simps)
next
  case (Cons nb rest)
  show ?case
  proof (cases "nb \<in> set escapees")
    case True
    then have eb: "escape_byte nb = [ESCAPE_PREFIX_BYTE, nb XOR 0xFF]"
      by (simp add: escape_byte_def escapees_def)
    let ?b2 = "buf[i := ESCAPE_PREFIX_BYTE, Suc i := nb XOR 0xFF]"
    from Cons.prems eb have len: "Suc (Suc i) + length (escape rest) \<le> length buf"
      by (simp add: escape_simps)
    then have "Suc (Suc i) + length (escape rest) \<le> length ?b2" by simp
    from Cons.IH [OF this]
    have "write_escaped rest ?b2 (Suc (Suc i)) =
      Inr (take (Suc (Suc i)) ?b2 @ escape rest @ drop (Suc (Suc i) + length (escape rest)) ?b2,
           Suc (Suc i) + length (escape rest))" .
    moreover have "take (Suc (Suc i)) ?b2 = take i buf @ [ESCAPE_PREFIX_BYTE, nb XOR 0xFF]"
      using len by (simp add: take_Suc_conv_app_nth)
    moreover have "drop (Suc (Suc i) + length (escape rest)) ?b2 = drop (Suc (Suc i) + length (escape rest)) buf"
      by simp
    ultimately show ?thesis using True len
      by (simp add: set_item_def escape_simps eb)
  next
    case False
    then have eb: "escape_byte nb = [nb]"
      by (simp add: escape_byte_def escapees_def)
    let ?b1 = "buf[i := nb]"
    from Cons.prems eb have len: "Suc i + length (escape rest) \<le> length buf"
      by (simp add: escape_simps)
    then have "Suc i + length (escape rest) \<le> length ?b1" by simp
    from Cons.IH [OF this]
    have "write_escaped rest ?b1 (Suc i) =
      Inr (take (Suc i) ?b1 @ escape rest @ drop (Suc i + length (escape rest)) ?b1,
           Suc i + length (escape rest))" .
    moreover have "take (Suc i) ?b1 = take i buf @ [nb]"
      using len by (simp add: take_Suc_conv_app_nth)
    moreover have "drop (Suc i + length (escape rest)) ?b1 = drop (Suc i + length (escape rest)) buf"
      by simp
    ultimately show ?thesis using False len
      by (simp add: set_item_def escape_simps eb)
  qed
qed

lemma compile_into_spec:
  assumes "frame_image f = Inr img" "2 + length (escape img) \<le> length buf"
  shows "compile_into f buf = Inr (FRAME_DELIMITER_BYTE # escape img @ [FRAME_DELIMITER_BYTE])"
proof -
  let ?n = "length (escape img)"
  let ?b1 = "buf[0 := FRAME_DELIMITER_BYTE]"
  let ?xs = "FRAME_DELIMITER_BYTE # escape img"
  have w: "write_escaped img ?b1 1 = Inr (take 1 ?b1 @ escape img @ drop (1 + ?n) ?b1, 1 + ?n)"
    using assms(2) by (intro write_escaped_spec) simp
  have t1: "take 1 ?b1 = [FRAME_DELIMITER_BYTE]"
    using assms(2) by (cases buf) simp_all
  obtain x d where d: "drop (1 + ?n) ?b1 = x # d"
    using assms(2) by (cases "drop (1 + ?n) ?b1") simp_all
  have b2: "take 1 ?b1 @ escape img @ drop (1 + ?n) ?b1 = ?xs @ x # d"
    by (simp only: t1 d) simp
  have ln: "1 + ?n = length ?xs" by simp
  have lb: "length ?xs < length (?xs @ x # d)" by simp
  have up: "(?xs @ x # d)[length ?xs := FRAME_DELIMITER_BYTE] = ?xs @ FRAME_DELIMITER_BYTE # d"
    by (rule list_update_length)
  have tk: "take (length ?xs + 1) (?xs @ FRAME_DELIMITER_BYTE # d) = ?xs @ [FRAME_DELIMITER_BYTE]"
    by simp
  have na: "\<not> length ?xs + 1 - 2 < length img" using length_escape_bounds [of img] by simp
  have s0: "set_item buf 0 FRAME_DELIMITER_BYTE = Inr ?b1"
    using assms(2) by (cases buf) (simp_all add: set_item_def)
  have s2: "set_item (?xs @ x # d) (length ?xs) FRAME_DELIMITER_BYTE = Inr (?xs @ FRAME_DELIMITER_BYTE # d)"
    unfolding set_item_def using lb up by simp
  have w': "write_escaped img ?b1 1 = Inr (?xs @ x # d, length ?xs)"
    using w unfolding b2 by simp
  show ?thesis
    unfolding compile_into_def
    by (simp only: assms(1) s0 w' s2 sum.case prod.case na if_False tk) simp
qed

lemma xor_ff_ff: "(b XOR 0xFF) XOR 0xFF = b" for b :: byte
  by (simp add: xor.assoc)

lemma unescape_Cons_plain: "b \<noteq> ESCAPE_PREFIX_BYTE \<Longrightarrow> unescape (b # xs) = b # unescape xs"
  by (cases xs) simp_all

lemma unescape_escape: "unescape (escape bs) = bs"
proof (induction bs)
  case Nil
  then show ?case by (simp add: escape_simps)
next
  case (Cons b bs)
  then show ?case
    by (auto simp: escape_simps escape_byte_def xor_ff_ff unescape_Cons_plain)
qed

lemma delimiter_notin_escape: "FRAME_DELIMITER_BYTE \<notin> set (escape bs)"
  by (induction bs) (auto simp: escape_simps escape_byte_def FRAME_DELIMITER_BYTE_def ESCAPE_PREFIX_BYTE_def)

lemma escape_prefix_followed:
  "i < length (escape bs) \<Longrightarrow> escape bs ! i = ESCAPE_PREFIX_BYTE \<Longrightarrow> i + 1 < length (escape bs)"
proof (induction bs arbitrary: i)
  case Nil
  then show ?case by (simp add: escape_simps)
next
  case (Cons b bs)
  show ?case
  proof (cases "b = FRAME_DELIMITER_BYTE \<or> b = ESCAPE_PREFIX_BYTE")
    case True
    then have e: "escape (b # bs) = ESCAPE_PREFIX_BYTE # (b XOR 0xFF) # escape bs"
      by (simp add: escape_simps escape_byte_def)
    from True have ne: "b XOR 0xFF \<noteq> ESCAPE_PREFIX_BYTE"
      by (auto simp: FRAME_DELIMITER_BYTE_def ESCAPE_PREFIX_BYTE_def)
    show ?thesis
    proof (cases i)
      case 0
      then show ?thesis by (simp add: e)
    next
      case (Suc j)
      show ?thesis
      proof (cases j)
        case 0
        with Suc Cons.prems ne show ?thesis by (simp add: e)
      next
        case (Suc k)
        with \<open>i = Suc j\<close> Cons.prems have "k < length (escape bs)" "escape bs ! k = ESCAPE_PREFIX_BYTE"
          by (simp_all add: e)
        from Cons.IH [OF this] Suc \<open>i = Suc j\<close> show ?thesis by (simp add: e)
      qed
    qed
  next
    case False
    then have e: "escape (b # bs) = b # escape bs"
      by (simp add: escape_simps escape_byte_def)
    show ?thesis
    proof (cases i)
      case 0
      with Cons.prems False show ?thesis by (simp add: e)
    next
      case (Suc k)
      with Cons.prems have "k < length (escape bs)" "escape bs ! k = ESCAPE_PREFIX_BYTE"
        by (simp_all add: e)
      from Cons.IH [OF this] Suc show ?thesis by (simp add: e)
    qed
  qed
qed

section \<open>Construction invariants\<close>

text \<open>
  C5. Construction of a SerialFrame raises exactly when an invariant is violated: a
  source or destination node id outside 0..4095 (absent is allowed), a Service data
  specifier with an absent source node id, a data type hash outside 0 <= x < 2^64, a
  transfer id outside 0 <= x < 2^64, or an index outside 0 <= x < 2^31. Otherwise the
  frame is constructed as given; the error raised is ValueError.
\<close>

theorem post_init_raises_iff_invariant_violated:
  "(post_init f = Inl ValueError \<or> post_init f = Inr f) \<and>
   ((post_init f = Inl ValueError) =
    ((\<exists>n. source_node_id f = Some n \<and> (n < 0 \<or> 4095 < n)) \<or>
     (\<exists>n. destination_node_id f = Some n \<and> (n < 0 \<or> 4095 < n)) \<or>
     (is_service (data_specifier f) \<and> source_node_id f = None) \<or>
     data_type_hash f < 0 \<or> 2 ^ 64 \<le> data_type_hash f \<or>
     transfer_id f < 0 \<or> 2 ^ 64 \<le> transfer_id f \<or>
     index f < 0 \<or> 2 ^ 31 \<le> index f))"
  by (auto simp: post_init_def NODE_ID_MASK_def DATA_TYPE_HASH_MASK_def
      TRANSFER_ID_MASK_def INDEX_MASK_def split: option.splits)

section \<open>Round trip and framing\<close>

lemma compiled_length_valid:
  "valid_frame f \<Longrightarrow> frame_image f = Inr img \<Longrightarrow> compiled_length f = 2 + length (escape img)"
  by (simp add: compiled_length_def)

lemma strip_framing_compiled:
  "strip_framing (FRAME_DELIMITER_BYTE # escape img @ [FRAME_DELIMITER_BYTE]) = img"
  by (simp add: strip_framing_def butlast_append unescape_escape)

text \<open>
  C1. For every valid frame and every buffer large enough for the compiled frame,
  \<open>compile_into\<close> succeeds, and stripping the two delimiters and undoing the escapes
  of its output, then parsing the image, gives back the frame in every field (priority,
  source and destination node ids, data specifier, data type hash, transfer id, index,
  end of transfer, payload); the timestamp is that of the reception.
\<close>

theorem codec_round_trip:
  assumes "valid_frame f" "compiled_length f \<le> length out_buffer"
  shows "\<exists>out. compile_into f out_buffer = Inr out \<and>
           parse_from_unescaped_image (strip_framing out) ts = Inr (Some (f\<lparr>timestamp := ts\<rparr>))"
proof -
  let ?img = "header_without_crc f @ value_as_bytes (CRC32C_new (header_without_crc f)) @
              payload f @ value_as_bytes (CRC32C_new (payload f))"
  have img: "frame_image f = Inr ?img" by (rule frame_image_valid [OF assms(1)])
  then have "2 + length (escape ?img) \<le> length out_buffer"
    using assms(2) by (simp add: compiled_length_def)
  from compile_into_spec [OF img this]
  have c: "compile_into f out_buffer = Inr (FRAME_DELIMITER_BYTE # escape ?img @ [FRAME_DELIMITER_BYTE])" .
  have "parse_from_unescaped_image (strip_framing (FRAME_DELIMITER_BYTE # escape ?img @ [FRAME_DELIMITER_BYTE])) ts
        = Inr (Some (f\<lparr>timestamp := ts\<rparr>))"
    by (simp only: strip_framing_compiled parse_frame_image [OF assms(1)])
  with c show ?thesis by blast
qed

text \<open>
  C2. For every valid frame and every buffer large enough, the bytes that
  \<open>compile_into\<close> returns begin and end with the delimiter 0x9E, hold no 0x9E
  strictly between the two, every 0x8E strictly between them is followed by another byte
  there, and the bytes between them are the image with exactly each 0x9E and 0x8E replaced
  by the pair 0x8E, byte XOR 0xFF, and every other byte as it is.
\<close>

theorem compile_into_framing:
  assumes "valid_frame f" "compiled_length f \<le> length out_buffer"
  shows "\<exists>img out. frame_image f = Inr img \<and> compile_into f out_buffer = Inr out \<and>
           2 \<le> length out \<and> hd out = 0x9E \<and> last out = 0x9E \<and>
           0x9E \<notin> set (butlast (tl out)) \<and>
           (\<forall>i < length (butlast (tl out)).
               butlast (tl out) ! i = 0x8E \<longrightarrow> i + 1 < length (butlast (tl out))) \<and>
           butlast (tl out) =
             concat (map (\<lambda>b. if b = 0x9E \<or> b = 0x8E then [0x8E, b XOR 0xFF] else [b]) img)"
proof -
  obtain img where img: "frame_image f = Inr img"
    using frame_image_valid [OF assms(1)] by blast
  then have "2 + length (escape img) \<le> length out_buffer"
    using assms(2) by (simp add: compiled_length_def)
  from compile_into_spec [OF img this]
  have c: "compile_into f out_buffer = Inr (FRAME_DELIMITER_BYTE # escape img @ [FRAME_DELIMITER_BYTE])" .
  let ?out = "FRAME_DELIMITER_BYTE # escape img @ [FRAME_DELIMITER_BYTE]"
  have mid: "butlast (tl ?out) = escape img" by (simp add: butlast_append)
  have "escape_byte = (\<lambda>b. if b = 0x9E \<or> b = 0x8E then [0x8E, b XOR 0xFF] else [b])"
    by (rule ext) (simp add: escape_byte_def FRAME_DELIMITER_BYTE_def ESCAPE_PREFIX_BYTE_def)
  then have p1: "escape img = concat (map (\<lambda>b. if b = 0x9E \<or> b = 0x8E then [0x8E, b XOR 0xFF] else [b]) img)"
    by (simp only: escape_def)
  have p2: "0x9E \<notin> set (escape img)"
    using delimiter_notin_escape [of img] by (simp add: FRAME_DELIMITER_BYTE_def)
  have p3: "\<forall>i < length (escape img). escape img ! i = 0x8E \<longrightarrow> i + 1 < length (escape img)"
    using escape_prefix_followed [of _ img] by (simp add: ESCAPE_PREFIX_BYTE_def)
  have p4: "hd ?out = 0x9E" "last ?out = 0x9E" "2 \<le> length ?out"
    by (simp_all add: FRAME_DELIMITER_BYTE_def)
  show ?thesis
  proof (rule exI [of _ img], rule exI [of _ ?out], intro conjI)
    show "frame_image f = Inr img" by (rule img)
    show "compile_into f out_buffer = Inr ?out" by (rule c)
    show "2 \<le> length ?out" "hd ?out = 0x9E" "last ?out = 0x9E" by (rule p4)+
    show "0x9E \<notin> set (butlast (tl ?out))" unfolding mid by (rule p2)
    show "\<forall>i < length (butlast (tl ?out)).
               butlast (tl ?out) ! i = 0x8E \<longrightarrow> i + 1 < length (butlast (tl ?out))"
      unfolding mid by (rule p3)
    show "butlast (tl ?out) =
             concat (map (\<lambda>b. if b = 0x9E \<or> b = 0x8E then [0x8E, b XOR 0xFF] else [b]) img)"
      unfolding mid by (rule p1)
  qed
qed

section \<open>Decoding never raises, and detects a flipped bit\<close>

lemma parse_too_short:
  "length img < 36 \<Longrightarrow> parse_from_unescaped_image img ts = Inr None"
  by (simp add: parse_from_unescaped_image_def NUM_OVERHEAD_BYTES_EXCEPT_DELIMITERS_AND_ESCAPING_def
      HEADER_SIZE_def CRC_SIZE_BYTES_def)

lemma parse_header_residue_fails:
  "\<not> check_residue (CRC32C_new (take 32 img)) \<Longrightarrow> parse_from_unescaped_image img ts = Inr None"
  by (simp add: parse_from_unescaped_image_def HEADER_SIZE_def CRC_SIZE_BYTES_def Let_def)

lemma parse_payload_residue_fails:
  "\<not> check_residue (CRC32C_new (drop 32 img)) \<Longrightarrow> parse_from_unescaped_image img ts = Inr None"
  by (simp add: parse_from_unescaped_image_def HEADER_SIZE_def CRC_SIZE_BYTES_def Let_def)

lemma parse_bad_version:
  "unpack_field (take 32 img) 0 1 \<noteq> 0 \<Longrightarrow> parse_from_unescaped_image img ts = Inr None"
  by (simp add: parse_from_unescaped_image_def HEADER_SIZE_def CRC_SIZE_BYTES_def Let_def VERSION_def)

lemma unpack_field_bounds: "0 \<le> unpack_field bs off n \<and> unpack_field bs off n < 2 ^ (8 * n)"
proof -
  let ?xs = "take n (drop off bs)"
  have "length ?xs \<le> n" by simp
  then have p: "(2::int) ^ (8 * length ?xs) \<le> 2 ^ (8 * n)" by (intro power_increasing) simp_all
  from from_bytes_le_bounds [of ?xs]
  have "0 \<le> from_bytes_le ?xs" "from_bytes_le ?xs < 2 ^ (8 * length ?xs)" by blast+
  with p have "0 \<le> from_bytes_le ?xs \<and> from_bytes_le ?xs < 2 ^ (8 * n)" by linarith
  then show ?thesis by (simp only: unpack_field_def)
qed

lemma message_word_range:
  assumes "0 \<le> x" "x < 65536" "x AND push_bit 15 1 = (0::int)"
  shows "x \<le> 32767"
proof -
  have "\<not> bit x 15"
  proof
    assume "bit x 15"
    then have "bit (x AND push_bit 15 1) 15" by (simp add: bit_simps bit_int_numerals)
    with assms(3) show False by simp
  qed
  have "take_bit 15 x = x"
  proof (rule bit_eqI)
    fix n
    have "n < 16" if "bit x n" using assms(1,2) that by (intro bit_int_below [of x 16 n]) simp_all
    with \<open>\<not> bit x 15\<close> have "n < 15" if "bit x n" using that by (cases "n = 15") fastforce+
    then show "bit (take_bit 15 x) n = bit x n" by (auto simp: bit_simps)
  qed
  then have "x < 2 ^ 15" by (metis take_bit_int_less_exp)
  then show ?thesis by simp
qed

lemma service_id_word_range: "0 \<le> x \<Longrightarrow> 0 \<le> x AND (511::int) \<and> x AND 511 \<le> 511"
  by (simp add: AND_upper2')

lemma decode_data_specifier_total:
  assumes "0 \<le> x" "x < 65536"
  shows "\<exists>ds. (if x AND push_bit 15 1 = 0 then new_MessageDataSpecifier x
          else new_ServiceDataSpecifier (x AND SERVICE_ID_MASK)
                 (if x AND push_bit 14 1 \<noteq> 0 then RESPONSE else REQUEST)) = Inr ds \<and>
         valid_data_specifier ds"
proof (cases "x AND push_bit 15 1 = 0")
  case True
  from message_word_range [OF assms True] assms(1) True show ?thesis
    by (simp add: new_MessageDataSpecifier_def SUBJECT_ID_MASK_def)
next
  case False
  from service_id_word_range [OF assms(1)] False show ?thesis
    by (simp add: new_ServiceDataSpecifier_def SERVICE_ID_MASK_def)
qed

lemma post_init_cases: "post_init g = Inl ValueError \<or> post_init g = Inr g"
  by (simp add: post_init_def)

lemma Priority_of_int_cases: "Priority_of_int i = Inl ValueError \<or> (\<exists>p. Priority_of_int i = Inr p)"
  by (simp add: Priority_of_int_def)

lemma except_ValueError_construct:
  "\<exists>r. except_ValueError (case Priority_of_int i of Inl e \<Rightarrow> Inl e | Inr prio \<Rightarrow> post_init (G prio)) = Inr r \<and>
        (\<forall>f. r = Some f \<longrightarrow> post_init f = Inr f \<and> (\<exists>prio. f = G prio))"
proof -
  from Priority_of_int_cases [of i] show ?thesis
  proof
    assume "Priority_of_int i = Inl ValueError"
    then show ?thesis by simp
  next
    assume "\<exists>p. Priority_of_int i = Inr p"
    then obtain p where p: "Priority_of_int i = Inr p" ..
    from post_init_cases [of "G p"] show ?thesis
    proof
      assume "post_init (G p) = Inl ValueError"
      with p show ?thesis by simp
    next
      assume "post_init (G p) = Inr (G p)"
      with p show ?thesis by auto
    qed
  qed
qed


lemma size_consts:
  "HEADER_SIZE = 32" "CRC_SIZE_BYTES = 4" "NUM_OVERHEAD_BYTES_EXCEPT_DELIMITERS_AND_ESCAPING = 36"
  by (simp_all add: NUM_OVERHEAD_BYTES_EXCEPT_DELIMITERS_AND_ESCAPING_def HEADER_SIZE_def
      CRC_SIZE_BYTES_def)

lemma parse_unfold:
  assumes "\<not> length img < 36" "check_residue (CRC32C_new (take 32 img))"
    "check_residue (CRC32C_new (drop 32 img))" "unpack_field (take 32 img) 0 1 = 0"
  shows "parse_from_unescaped_image img ts =
    (case (if unpack_field (take 32 img) 6 2 AND push_bit 15 1 = 0
           then new_MessageDataSpecifier (unpack_field (take 32 img) 6 2)
           else new_ServiceDataSpecifier (unpack_field (take 32 img) 6 2 AND SERVICE_ID_MASK)
                  (if unpack_field (take 32 img) 6 2 AND push_bit 14 1 \<noteq> 0 then RESPONSE
                   else REQUEST)) of
       Inl e \<Rightarrow> Inl e
     | Inr ds \<Rightarrow>
         except_ValueError
           (case Priority_of_int (unpack_field (take 32 img) 1 1) of
              Inl e \<Rightarrow> Inl e
            | Inr prio \<Rightarrow> post_init (reconstruct img ts ds prio)))"
  using assms
  unfolding parse_from_unescaped_image_def reconstruct_def
  by (simp only: size_consts VERSION_def Let_def) simp

lemma parse_total:
  "\<exists>r. parse_from_unescaped_image img ts = Inr r \<and> (\<forall>f. r = Some f \<longrightarrow> valid_frame f)"
proof (cases "\<not> length img < 36 \<and> check_residue (CRC32C_new (take 32 img)) \<and>
    check_residue (CRC32C_new (drop 32 img)) \<and> unpack_field (take 32 img) 0 1 = 0")
  case False
  then have "parse_from_unescaped_image img ts = Inr None"
    using parse_too_short parse_header_residue_fails parse_payload_residue_fails parse_bad_version
    by blast
  then show ?thesis by simp
next
  case True
  let ?x = "unpack_field (take 32 img) 6 2"
  have "0 \<le> ?x" "?x < 65536" using unpack_field_bounds [of "take 32 img" 6 2] by simp_all
  from decode_data_specifier_total [OF this] obtain ds where
    ds: "(if ?x AND push_bit 15 1 = 0 then new_MessageDataSpecifier ?x
          else new_ServiceDataSpecifier (?x AND SERVICE_ID_MASK)
                 (if ?x AND push_bit 14 1 \<noteq> 0 then RESPONSE else REQUEST)) = Inr ds"
    and vds: "valid_data_specifier ds" by blast
  from except_ValueError_construct [where i = "unpack_field (take 32 img) 1 1"
      and G = "reconstruct img ts ds"]
  obtain r where r: "except_ValueError
           (case Priority_of_int (unpack_field (take 32 img) 1 1) of
              Inl e \<Rightarrow> Inl e
            | Inr prio \<Rightarrow> post_init (reconstruct img ts ds prio)) = Inr r"
    and rf: "\<forall>f. r = Some f \<longrightarrow> post_init f = Inr f \<and> (\<exists>prio. f = reconstruct img ts ds prio)"
    by blast
  from True have "parse_from_unescaped_image img ts =
    (case (if ?x AND push_bit 15 1 = 0 then new_MessageDataSpecifier ?x
           else new_ServiceDataSpecifier (?x AND SERVICE_ID_MASK)
                  (if ?x AND push_bit 14 1 \<noteq> 0 then RESPONSE else REQUEST)) of
       Inl e \<Rightarrow> Inl e
     | Inr ds \<Rightarrow>
         except_ValueError
           (case Priority_of_int (unpack_field (take 32 img) 1 1) of
              Inl e \<Rightarrow> Inl e
            | Inr prio \<Rightarrow> post_init (reconstruct img ts ds prio)))"
    by (intro parse_unfold) blast+
  then have "parse_from_unescaped_image img ts = Inr r"
    by (simp only: ds r sum.case)
  moreover have "valid_frame f" if "r = Some f" for f
  proof -
    from rf that obtain prio where "post_init f = Inr f" "f = reconstruct img ts ds prio" by blast
    then show ?thesis using vds by (simp add: valid_frame_def reconstruct_def)
  qed
  ultimately show ?thesis by blast
qed

text \<open>
  C3. On every image and timestamp \<open>parse_from_unescaped_image\<close> returns, without
  raising, either None or a valid frame. It returns None when the image is shorter than
  36 bytes, when the residue check of the 32-byte header fails, when that of the rest
  fails, and when the version byte is not zero; a frame whose construction violates an
  invariant is never returned.
\<close>

theorem parse_never_raises:
  "(\<exists>r. parse_from_unescaped_image img ts = Inr r \<and> (\<forall>f. r = Some f \<longrightarrow> valid_frame f)) \<and>
   (length img < 36 \<longrightarrow> parse_from_unescaped_image img ts = Inr None) \<and>
   (\<not> check_residue (CRC32C_new (take 32 img)) \<longrightarrow> parse_from_unescaped_image img ts = Inr None) \<and>
   (\<not> check_residue (CRC32C_new (drop 32 img)) \<longrightarrow> parse_from_unescaped_image img ts = Inr None) \<and>
   (unpack_field (take 32 img) 0 1 \<noteq> 0 \<longrightarrow> parse_from_unescaped_image img ts = Inr None)"
  using parse_total [of img ts] parse_too_short [of img ts] parse_header_residue_fails [of img ts]
    parse_payload_residue_fails [of img ts] parse_bad_version [of img ts]
  by (intro conjI impI)

lemma parse_Some_D:
  assumes "parse_from_unescaped_image img ts = Inr (Some f)"
  shows "36 \<le> length img" "check_residue (CRC32C_new (take 32 img))"
    "check_residue (CRC32C_new (drop 32 img))"
  using assms parse_too_short [of img ts] parse_header_residue_fails [of img ts]
    parse_payload_residue_fails [of img ts]
  by (auto simp: not_less [symmetric])

lemma flip_bit_neq: "j < 8 \<Longrightarrow> b XOR push_bit j 1 \<noteq> b" for b :: byte
proof
  assume j: "j < 8" and e: "b XOR push_bit j 1 = b"
  have "bit (b XOR push_bit j 1) j = (\<not> bit b j)" using j by (simp add: bit_simps)
  with e show False by simp
qed

text \<open>
  C4. When an image decodes to a frame, the image with any single bit flipped, in the
  header, in the payload or in the trailing CRC, decodes to None.
\<close>

theorem single_bit_flip_rejected:
  assumes "parse_from_unescaped_image img ts = Inr (Some f)" "i < length img" "j < 8"
  shows "parse_from_unescaped_image (img[i := img ! i XOR push_bit j 1]) ts' = Inr None"
proof -
  let ?c = "img ! i XOR push_bit j 1"
  note d = parse_Some_D [OF assms(1)]
  have ne: "?c \<noteq> img ! i" by (rule flip_bit_neq [OF assms(3)])
  show ?thesis
  proof (cases "i < 32")
    case True
    have "take 32 (img[i := ?c]) = (take 32 img)[i := ?c]" by (simp add: take_update_swap)
    moreover have "i < length (take 32 img)" "?c \<noteq> take 32 img ! i"
      using True assms(2) ne by simp_all
    then have "crc_add 0xFFFFFFFF ((take 32 img)[i := ?c]) \<noteq> crc_add 0xFFFFFFFF (take 32 img)"
      by (rule crc_add_update_neq)
    ultimately have "\<not> check_residue (CRC32C_new (take 32 (img[i := ?c])))"
      using d(2) by (simp add: check_residue_def CRC32C_new_def)
    then show ?thesis by (rule parse_header_residue_fails)
  next
    case False
    have "drop 32 (img[i := ?c]) = (drop 32 img)[i - 32 := ?c]"
      using False by (simp add: drop_update_swap)
    moreover have "i - 32 < length (drop 32 img)" "?c \<noteq> drop 32 img ! (i - 32)"
      using False assms(2) ne by simp_all
    then have "crc_add 0xFFFFFFFF ((drop 32 img)[i - 32 := ?c]) \<noteq> crc_add 0xFFFFFFFF (drop 32 img)"
      by (rule crc_add_update_neq)
    ultimately have "\<not> check_residue (CRC32C_new (drop 32 (img[i := ?c])))"
      using d(3) by (simp add: check_residue_def CRC32C_new_def)
    then show ?thesis by (rule parse_payload_residue_fails)
  qed
qed

section \<open>Routing, and the scratch buffer\<close>

lemma statistics_deliver: "statistics (deliver frame self source) = statistics self"
  by (simp add: deliver_def split: option.splits)

lemma statistics_foldl_deliver: "statistics (foldl (deliver frame) self sources) = statistics self"
  by (induction sources arbitrary: self) (simp_all add: statistics_deliver)

text \<open>
  C10. Every frame handed to \<open>_handle_received_frame\<close> raises \<open>in_frames\<close> by
  exactly one, whatever its destination: the counter counts received frames.
\<close>

theorem in_frames_counts_every_frame:
  "in_frames (statistics (handle_received_frame self frame)) = in_frames (statistics self) + 1"
  by (simp add: handle_received_frame_def Let_def statistics_foldl_deliver)

lemma input_registry_deliver:
  "input_registry (deliver frame self source) key =
     (if key = (data_specifier frame, source)
      then map_option (\<lambda>session. process_frame session frame) (input_registry self key)
      else input_registry self key)"
  by (simp add: deliver_def split: option.splits)

text \<open>
  C6. A received frame whose destination node id is the local node id or absent is handed
  to exactly the existing input sessions with the keys (data specifier, source node id)
  and (data specifier, absent), once each, so to at most two sessions; a frame with any
  other destination is handed to no session. No session is added or removed.
\<close>

theorem handle_received_frame_routing:
  "input_registry (handle_received_frame self frame) key =
     (if (destination_node_id frame = local_node_id self \<or> destination_node_id frame = None) \<and>
         (key = (data_specifier frame, source_node_id frame) \<or> key = (data_specifier frame, None))
      then map_option (\<lambda>session. process_frame session frame) (input_registry self key)
      else input_registry self key)"
proof (cases "source_node_id frame")
  case None
  then show ?thesis
    by (simp add: handle_received_frame_def Let_def input_registry_deliver)
next
  case (Some n)
  then show ?thesis
    by (auto simp: handle_received_frame_def Let_def input_registry_deliver)
qed

lemma length_grow_buffer: "length buf \<le> length (grow_buffer buf fr) \<and> 3 * length (payload fr) \<le> length (grow_buffer buf fr)"
  by (simp add: grow_buffer_def Let_def)

lemma frame_image_length:
  "frame_image f = Inr img \<Longrightarrow> length img = 36 + length (payload f)"
  by (auto simp: frame_image_def Let_def HEADER_SIZE_def CRC_SIZE_BYTES_def length_value_as_bytes
      split: sum.splits if_splits)

lemma frame_image_error:
  "frame_image f = Inl e \<Longrightarrow> e = StructError \<or> e = AssertionError"
  by (auto simp: frame_image_def Let_def pack_header_def split: sum.splits if_splits)

lemma compiled_length_le: "compiled_length f \<le> 2 + 2 * (36 + length (payload f))"
proof (cases "frame_image f")
  case (Inl e)
  then show ?thesis by (simp add: compiled_length_def)
next
  case (Inr img)
  with frame_image_length [OF Inr] length_escape_bounds [of img] show ?thesis
    by (simp add: compiled_length_def)
qed

lemma grown_buffer_suffices:
  assumes "1024 \<le> length buf"
  shows "2 + 2 * (32 + length (payload fr) + 4) \<le> length (grow_buffer buf fr)"
  using assms length_grow_buffer [of buf fr] by auto

lemma compile_into_grown_buffer:
  assumes "1024 \<le> length buf"
  shows "compile_into fr (grow_buffer buf fr) \<noteq> Inl IndexError"
proof (cases "frame_image fr")
  case (Inl e)
  with frame_image_error [OF Inl] show ?thesis by (auto simp: compile_into_def)
next
  case (Inr img)
  have "2 + length (escape img) \<le> length (grow_buffer buf fr)"
    using grown_buffer_suffices [OF assms, of fr] frame_image_length [OF Inr]
      length_escape_bounds [of img] by auto
  from compile_into_spec [OF Inr this] show ?thesis by simp
qed


lemma closed_add_out [simp]:
  "closed (add_out_bytes n self) = closed self" "closed (add_out_frames n self) = closed self"
  "serialization_buffer (add_out_bytes n self) = serialization_buffer self"
  "serialization_buffer (add_out_frames n self) = serialization_buffer self"
  by (simp_all add: add_out_bytes_def add_out_frames_def)

lemma send_frames_preserves:
  "send_frames dl env k frames tx self = (r, self1) \<Longrightarrow>
   closed self1 = closed self \<and>
   length (serialization_buffer self) \<le> length (serialization_buffer self1)"
proof (induction frames arbitrary: k tx self)
  case Nil
  then show ?case by simp
next
  case (Cons fr frames)
  let ?buf = "grow_buffer (serialization_buffer self) fr"
  have g: "length (serialization_buffer self) \<le> length ?buf"
    using length_grow_buffer by blast
  show ?case
  proof (cases "compile_into fr ?buf")
    case (Inl e)
    with Cons.prems g show ?thesis by (auto simp: Let_def)
  next
    case (Inr compiled)
    let ?self1 = "self\<lparr>serialization_buffer := compiled @ drop (length compiled) ?buf\<rparr>"
    have s1: "closed ?self1 = closed self"
      "length (serialization_buffer self) \<le> length (serialization_buffer ?self1)"
      using g by simp_all
    show ?thesis
    proof (cases "dl - loop_time (env k) > 0")
      case False
      with Cons.prems Inr s1 show ?thesis by (auto simp: Let_def)
    next
      case True
      show ?thesis
      proof (cases "write_attempt (port_write (env k)) tx (timestamp_now (env k))")
        case (Inl e)
        with Cons.prems Inr True s1 show ?thesis by (auto simp: Let_def)
      next
        case (Inr res)
        obtain nw tx1 where res: "res = (nw, tx1)" by (cases res)
        let ?self2 = "add_out_bytes (case nw of None \<Rightarrow> 0 | Some n \<Rightarrow> n) ?self1"
        show ?thesis
        proof (cases "(case nw of None \<Rightarrow> int (length compiled) | Some n \<Rightarrow> n) < int (length compiled)")
          case True
          with Cons.prems \<open>compile_into fr ?buf = Inr compiled\<close> \<open>dl - loop_time (env k) > 0\<close> Inr res s1
          show ?thesis by (auto simp: Let_def)
        next
          case False
          with Cons.prems \<open>compile_into fr ?buf = Inr compiled\<close> \<open>dl - loop_time (env k) > 0\<close> Inr res
          have "send_frames dl env (k + 1) frames tx1 (add_out_frames 1 ?self2) = (r, self1)"
            by (simp add: Let_def)
          from Cons.IH [OF this] s1 show ?thesis by simp
        qed
      qed
    qed
  qed
qed

lemma send_transfer_preserves:
  "send_transfer self frames dl env = (r, self1) \<Longrightarrow>
   closed self1 = closed self \<and>
   length (serialization_buffer self) \<le> length (serialization_buffer self1)"
proof (cases "closed self")
  case True
  assume "send_transfer self frames dl env = (r, self1)"
  with True show ?thesis by (simp add: send_transfer_def)
next
  case False
  assume a: "send_transfer self frames dl env = (r, self1)"
  obtain r0 s0 where s: "send_frames dl env 0 frames None self = (r0, s0)"
    by (cases "send_frames dl env 0 frames None self")
  from send_frames_preserves [OF s] a False s show ?thesis
    by (cases r0) (auto simp: send_transfer_def)
qed

lemma send_transfer_closed:
  "closed self \<Longrightarrow> send_transfer self frames dl env = (Inl ResourceClosedError, self)"
  by (simp add: send_transfer_def)

lemma closed_handle_received_frame [simp]:
  "closed (handle_received_frame self frame) = closed self"
proof -
  have d: "closed (deliver frame s src) = closed s" for s src
    by (simp add: deliver_def split: option.splits)
  have "closed (foldl (deliver frame) s srcs) = closed s" for s srcs
    by (induction srcs arbitrary: s) (simp_all add: d)
  then show ?thesis by (simp add: handle_received_frame_def Let_def)
qed

lemma buffer_handle_received_frame [simp]:
  "serialization_buffer (handle_received_frame self frame) = serialization_buffer self"
proof -
  have d: "serialization_buffer (deliver frame s src) = serialization_buffer s" for s src
    by (simp add: deliver_def split: option.splits)
  have "serialization_buffer (foldl (deliver frame) s srcs) = serialization_buffer s" for s srcs
    by (induction srcs arbitrary: s) (simp_all add: d)
  then show ?thesis by (simp add: handle_received_frame_def Let_def)
qed

lemma perform_preserves:
  "(closed self \<longrightarrow> closed (snd (perform self op))) \<and>
   length (serialization_buffer self) \<le> length (serialization_buffer (snd (perform self op)))"
proof (cases op)
  case (SendTransfer frames dl env)
  obtain r s1 where s: "send_transfer self frames dl env = (r, s1)"
    by (cases "send_transfer self frames dl env")
  from send_transfer_preserves [OF s] s SendTransfer show ?thesis
    by (cases r) auto
qed (auto simp: close_def get_input_session_def get_output_session_def reader_failure_def
      Let_def split: option.splits)

lemma run_preserves:
  "(closed self \<longrightarrow> closed (run self ops)) \<and>
   length (serialization_buffer self) \<le> length (serialization_buffer (run self ops))"
proof (induction ops arbitrary: self)
  case Nil
  then show ?case by simp
next
  case (Cons op ops)
  from perform_preserves [of self op] Cons.IH [of "snd (perform self op)"]
  show ?case by auto
qed

lemma init_buffer:
  "init_SerialTransport po nid m mult = Inr self \<Longrightarrow> length (serialization_buffer self) = 1024"
  by (auto simp: init_SerialTransport_def split: if_splits)

text \<open>
  C9. In every state that the engine reaches from its construction, where the scratch
  buffer has 1024 bytes, and for every frame, the buffer after the growth rule of the
  send path has at least 2 + 2 * (32 + P + 4) bytes, \<open>P\<close> the length of the payload,
  and \<open>compile_into\<close> on it does not raise IndexError.
\<close>

theorem scratch_buffer_never_overrun:
  assumes "init_SerialTransport port_open node_id mtu_arg multiplier = Inr self0"
  shows "2 + 2 * (32 + length (payload fr) + 4)
           \<le> length (grow_buffer (serialization_buffer (run self0 ops)) fr) \<and>
         compile_into fr (grow_buffer (serialization_buffer (run self0 ops)) fr) \<noteq> Inl IndexError"
proof -
  have "1024 \<le> length (serialization_buffer (run self0 ops))"
    using init_buffer [OF assms] run_preserves [of self0 ops] by simp
  then show ?thesis
    using grown_buffer_suffices compile_into_grown_buffer by blast
qed

section \<open>The send path\<close>

lemma add_out_bytes_0 [simp]: "add_out_bytes 0 self = self"
  by (simp add: add_out_bytes_def)

lemma length_compile_into:
  assumes "valid_frame fr" "1024 \<le> length buf"
  shows "\<exists>compiled. compile_into fr (grow_buffer buf fr) = Inr compiled \<and>
           length compiled = compiled_length fr"
proof -
  obtain img where img: "frame_image fr = Inr img"
    using frame_image_valid [OF assms(1)] by blast
  have "2 + length (escape img) \<le> length (grow_buffer buf fr)"
    using grown_buffer_suffices [OF assms(2), of fr] frame_image_length [OF img]
      length_escape_bounds [of img] by auto
  from compile_into_spec [OF img this] img show ?thesis
    by (simp add: compiled_length_def)
qed

lemma send_frames_step:
  assumes "valid_frame fr" "1024 \<le> length (serialization_buffer self)"
  shows "\<exists>self1. statistics self1 = statistics self \<and> closed self1 = closed self \<and>
      1024 \<le> length (serialization_buffer self1) \<and>
      send_frames dl env k (fr # frames) tx self =
       (case frame_fate dl (env k) (compiled_length fr) of
          Raised \<Rightarrow> (Inl SerialException, self1)
        | Aborted \<Rightarrow> (Inr None, add_out_bytes (bytes_written dl (env k)) self1)
        | WrittenFully \<Rightarrow>
            send_frames dl env (k + 1) frames
              (case tx of None \<Rightarrow> Some (timestamp_now (env k)) | Some t \<Rightarrow> Some t)
              (add_out_frames 1 (add_out_bytes (bytes_written dl (env k)) self1)))"
proof -
  let ?buf = "grow_buffer (serialization_buffer self) fr"
  obtain compiled where c: "compile_into fr ?buf = Inr compiled"
    and lc: "length compiled = compiled_length fr"
    using length_compile_into [OF assms] by blast
  let ?self1 = "self\<lparr>serialization_buffer := compiled @ drop (length compiled) ?buf\<rparr>"
  have pos: "0 < compiled_length fr"
    using frame_image_valid [OF assms(1)] by (simp add: compiled_length_def)
  have "1024 \<le> length (serialization_buffer ?self1)"
    using assms(2) length_grow_buffer [of "serialization_buffer self" fr] by auto
  moreover have "send_frames dl env k (fr # frames) tx self =
       (case frame_fate dl (env k) (compiled_length fr) of
          Raised \<Rightarrow> (Inl SerialException, ?self1)
        | Aborted \<Rightarrow> (Inr None, add_out_bytes (bytes_written dl (env k)) ?self1)
        | WrittenFully \<Rightarrow>
            send_frames dl env (k + 1) frames
              (case tx of None \<Rightarrow> Some (timestamp_now (env k)) | Some t \<Rightarrow> Some t)
              (add_out_frames 1 (add_out_bytes (bytes_written dl (env k)) ?self1)))"
    using c lc pos
    by (auto simp: Let_def frame_fate_def bytes_written_def write_attempt_def
        split: write_outcome.splits option.splits)
  ultimately show ?thesis by (intro exI [of _ ?self1]) simp
qed


lemma statistics_add_out [simp]:
  "out_frames (statistics (add_out_frames n self)) = out_frames (statistics self) + n"
  "out_bytes (statistics (add_out_frames n self)) = out_bytes (statistics self)"
  "out_transfers (statistics (add_out_frames n self)) = out_transfers (statistics self)"
  "out_incomplete (statistics (add_out_frames n self)) = out_incomplete (statistics self)"
  "out_frames (statistics (add_out_bytes n self)) = out_frames (statistics self)"
  "out_bytes (statistics (add_out_bytes n self)) = out_bytes (statistics self) + n"
  "out_transfers (statistics (add_out_bytes n self)) = out_transfers (statistics self)"
  "out_incomplete (statistics (add_out_bytes n self)) = out_incomplete (statistics self)"
  by (simp_all add: add_out_bytes_def add_out_frames_def)

lemma bytes_written_Raised:
  "frame_fate dl ev n = Raised \<Longrightarrow> bytes_written dl ev = 0"
  by (auto simp: frame_fate_def bytes_written_def split: if_splits write_outcome.splits option.splits)

lemma send_frames_accounting:
  assumes "\<forall>fr \<in> set frames. valid_frame fr" "1024 \<le> length (serialization_buffer self)"
  shows "out_frames (statistics (snd (send_frames dl env k frames tx self))) =
           out_frames (statistics self) + int (written_fully dl env k frames) \<and>
         out_bytes (statistics (snd (send_frames dl env k frames tx self))) =
           out_bytes (statistics self) +
           (\<Sum>i < min (Suc (written_fully dl env k frames)) (length frames).
               bytes_written dl (env (k + i))) \<and>
         out_transfers (statistics (snd (send_frames dl env k frames tx self))) =
           out_transfers (statistics self) \<and>
         out_incomplete (statistics (snd (send_frames dl env k frames tx self))) =
           out_incomplete (statistics self) \<and>
         (written_fully dl env k frames = length frames \<longrightarrow>
            fst (send_frames dl env k frames tx self) = Inr (tx_after tx env k frames)) \<and>
         (written_fully dl env k frames < length frames \<longrightarrow>
            (frame_fate dl (env (k + written_fully dl env k frames))
               (compiled_length (frames ! written_fully dl env k frames)) = Aborted \<longrightarrow>
             fst (send_frames dl env k frames tx self) = Inr None) \<and>
            (frame_fate dl (env (k + written_fully dl env k frames))
               (compiled_length (frames ! written_fully dl env k frames)) = Raised \<longrightarrow>
             fst (send_frames dl env k frames tx self) = Inl SerialException))"
  using assms
proof (induction frames arbitrary: k tx self)
  case Nil
  then show ?case by (simp add: tx_after_def split: option.splits)
next
  case (Cons fr frames)
  from Cons.prems have v: "valid_frame fr" and vs: "\<forall>fr \<in> set frames. valid_frame fr" by simp_all
  from send_frames_step [OF v Cons.prems(2), of dl env k frames tx]
  obtain self1 where st: "statistics self1 = statistics self"
    and b1: "1024 \<le> length (serialization_buffer self1)"
    and eq: "send_frames dl env k (fr # frames) tx self =
       (case frame_fate dl (env k) (compiled_length fr) of
          Raised \<Rightarrow> (Inl SerialException, self1)
        | Aborted \<Rightarrow> (Inr None, add_out_bytes (bytes_written dl (env k)) self1)
        | WrittenFully \<Rightarrow>
            send_frames dl env (k + 1) frames
              (case tx of None \<Rightarrow> Some (timestamp_now (env k)) | Some t \<Rightarrow> Some t)
              (add_out_frames 1 (add_out_bytes (bytes_written dl (env k)) self1)))"
    by blast
  show ?case
  proof (cases "frame_fate dl (env k) (compiled_length fr)")
    case Raised
    with eq st bytes_written_Raised [OF Raised] show ?thesis by simp
  next
    case Aborted
    with eq st show ?thesis by simp
  next
    case WrittenFully
    let ?tx1 = "case tx of None \<Rightarrow> Some (timestamp_now (env k)) | Some t \<Rightarrow> Some t"
    let ?self2 = "add_out_frames 1 (add_out_bytes (bytes_written dl (env k)) self1)"
    have b2: "1024 \<le> length (serialization_buffer ?self2)" using b1 by simp
    note IH = Cons.IH [OF vs b2, of "k + 1" ?tx1]
    have e: "send_frames dl env k (fr # frames) tx self = send_frames dl env (k + 1) frames ?tx1 ?self2"
      using eq WrittenFully by simp
    have n: "written_fully dl env k (fr # frames) = Suc (written_fully dl env (k + 1) frames)"
      using WrittenFully by simp
    have t: "tx_after ?tx1 env (k + 1) frames = tx_after tx env k (fr # frames)"
      by (simp add: tx_after_def split: option.splits)
    let ?R = "send_frames dl env (k + 1) frames ?tx1 ?self2"
    let ?n1 = "written_fully dl env (k + 1) frames"
    have sm: "(\<Sum>i < min (Suc (Suc m)) (length (fr # frames)). bytes_written dl (env (k + i))) =
          bytes_written dl (env k) + (\<Sum>i < min (Suc m) (length frames). bytes_written dl (env (k + 1 + i)))" for m
    proof -
      have "min (Suc (Suc m)) (length (fr # frames)) = Suc (min (Suc m) (length frames))" by simp
      then show ?thesis by (simp only: sum.lessThan_Suc_shift) simp
    qed
    from IH have c1: "out_frames (statistics (snd ?R)) = out_frames (statistics self) + int (Suc ?n1)"
      using st by simp
    from IH have "out_bytes (statistics (snd ?R)) = out_bytes (statistics ?self2) +
        (\<Sum>i < min (Suc ?n1) (length frames). bytes_written dl (env (k + 1 + i)))" by blast
    then have c2: "out_bytes (statistics (snd ?R)) = out_bytes (statistics self) +
        (\<Sum>i < min (Suc (Suc ?n1)) (length (fr # frames)). bytes_written dl (env (k + i)))"
      unfolding sm using st by simp
    from IH have c3: "out_transfers (statistics (snd ?R)) = out_transfers (statistics self)"
      using st by simp
    from IH have c4: "out_incomplete (statistics (snd ?R)) = out_incomplete (statistics self)"
      using st by simp
    from IH have c5: "Suc ?n1 = length (fr # frames) \<longrightarrow> fst ?R = Inr (tx_after tx env k (fr # frames))"
      using t by simp
    have ix: "(fr # frames) ! Suc ?n1 = frames ! ?n1" "k + Suc ?n1 = k + 1 + ?n1" by simp_all
    from IH have c6: "Suc ?n1 < length (fr # frames) \<longrightarrow>
            (frame_fate dl (env (k + Suc ?n1)) (compiled_length ((fr # frames) ! Suc ?n1)) = Aborted \<longrightarrow>
             fst ?R = Inr None) \<and>
            (frame_fate dl (env (k + Suc ?n1)) (compiled_length ((fr # frames) ! Suc ?n1)) = Raised \<longrightarrow>
             fst ?R = Inl SerialException)"
      unfolding ix by simp
    show ?thesis
      unfolding e n using c1 c2 c3 c4 c5 c6 by (intro conjI)
  qed
qed

section \<open>Accounting of a transfer, and the closed state\<close>

text \<open>
  C7. In \<open>_send_transfer\<close> on an open transport, with \<open>n\<close> the number of leading
  frames whose writes complete fully: \<open>out_frames\<close> grows by \<open>n\<close> and
  \<open>out_bytes\<close> by the byte counts that the writes report; when every write of a
  transfer with at least one frame completes, the call returns the timestamp taken after
  the first write; when the deadline is exhausted before a frame's write, or the write
  times out or writes fewer bytes than requested, the transfer aborts and the call returns
  no timestamp. \<open>out_transfers\<close> grows by one exactly when a timestamp is returned and
  \<open>out_incomplete\<close> by one exactly when the call returns no timestamp, which is also
  what it does on an empty sequence of frames. A write that raises another exception
  leaves the call as that exception, with neither counter changed.
\<close>

theorem send_transfer_accounting:
  assumes "\<not> closed self" "1024 \<le> length (serialization_buffer self)"
    "\<forall>fr \<in> set frames. valid_frame fr"
  shows
    "let n = written_fully dl env 0 frames;
         r = fst (send_transfer self frames dl env);
         st = statistics (snd (send_transfer self frames dl env))
     in out_frames st = out_frames (statistics self) + int n \<and>
        out_bytes st = out_bytes (statistics self) +
          (\<Sum>i < min (Suc n) (length frames). bytes_written dl (env i)) \<and>
        (frames \<noteq> [] \<and> n = length frames \<longrightarrow> r = Inr (Some (timestamp_now (env 0)))) \<and>
        (frames = [] \<longrightarrow> r = Inr None) \<and>
        (n < length frames \<and> frame_fate dl (env n) (compiled_length (frames ! n)) = Aborted
           \<longrightarrow> r = Inr None) \<and>
        (n < length frames \<and> frame_fate dl (env n) (compiled_length (frames ! n)) = Raised
           \<longrightarrow> r = Inl SerialException) \<and>
        out_transfers st = out_transfers (statistics self) +
          (if \<exists>t. r = Inr (Some t) then 1 else 0) \<and>
        out_incomplete st = out_incomplete (statistics self) +
          (if r = Inr None then 1 else 0)"
proof -
  let ?R = "send_frames dl env 0 frames None self"
  let ?n = "written_fully dl env 0 frames"
  obtain r0 s0 where R: "?R = (r0, s0)" by (cases ?R)
  note acc = send_frames_accounting [OF assms(3) assms(2), of dl env 0 None]
  from send_frames_preserves [OF R] assms(1) have nc: "\<not> closed s0" by simp
  have fstT: "fst (send_transfer self frames dl env) = r0"
    using assms(1) R nc by (cases r0) (simp_all add: send_transfer_def)
  have st: "statistics (snd (send_transfer self frames dl env)) =
      (case r0 of Inl e \<Rightarrow> statistics s0
       | Inr None \<Rightarrow> (statistics s0)\<lparr>out_incomplete := out_incomplete (statistics s0) + 1\<rparr>
       | Inr (Some t) \<Rightarrow> (statistics s0)\<lparr>out_transfers := out_transfers (statistics s0) + 1\<rparr>)"
    using assms(1) R by (simp add: send_transfer_def split: sum.splits option.splits)
  have a1: "out_frames (statistics s0) = out_frames (statistics self) + int ?n"
    and a2: "out_bytes (statistics s0) = out_bytes (statistics self) +
          (\<Sum>i < min (Suc ?n) (length frames). bytes_written dl (env i))"
    and a3: "out_transfers (statistics s0) = out_transfers (statistics self)"
    and a4: "out_incomplete (statistics s0) = out_incomplete (statistics self)"
    and a5: "?n = length frames \<longrightarrow> r0 = Inr (tx_after None env 0 frames)"
    and a6: "?n < length frames \<longrightarrow>
       (frame_fate dl (env ?n) (compiled_length (frames ! ?n)) = Aborted \<longrightarrow> r0 = Inr None) \<and>
       (frame_fate dl (env ?n) (compiled_length (frames ! ?n)) = Raised \<longrightarrow> r0 = Inl SerialException)"
    using acc R by simp_all
  have c1: "out_frames (statistics (snd (send_transfer self frames dl env))) =
      out_frames (statistics self) + int ?n"
    unfolding st using a1 by (simp split: sum.splits option.splits)
  have c2: "out_bytes (statistics (snd (send_transfer self frames dl env))) =
      out_bytes (statistics self) + (\<Sum>i < min (Suc ?n) (length frames). bytes_written dl (env i))"
    unfolding st using a2 by (simp split: sum.splits option.splits)
  have c3: "frames \<noteq> [] \<and> ?n = length frames \<longrightarrow> r0 = Inr (Some (timestamp_now (env 0)))"
    using a5 by (simp add: tx_after_def)
  have c4: "frames = [] \<longrightarrow> r0 = Inr None"
    using a5 by (simp add: tx_after_def)
  have c7: "out_transfers (statistics (snd (send_transfer self frames dl env))) =
      out_transfers (statistics self) + (if \<exists>t. r0 = Inr (Some t) then 1 else 0)"
    unfolding st using a3 by (simp split: sum.splits option.splits)
  have c8: "out_incomplete (statistics (snd (send_transfer self frames dl env))) =
      out_incomplete (statistics self) + (if r0 = Inr None then 1 else 0)"
    unfolding st using a4 by (simp split: sum.splits option.splits)
  show ?thesis
    unfolding Let_def fstT using c1 c2 c3 c4 a6 c7 c8 by (intro conjI) blast+
qed


lemma valid_example_message_frame: "valid_frame example_message_frame"
  by (simp add: valid_frame_def post_init_def example_message_frame_def NODE_ID_MASK_def
      DATA_TYPE_HASH_MASK_def TRANSFER_ID_MASK_def INDEX_MASK_def SUBJECT_ID_MASK_def)

lemma valid_example_service_frame: "valid_frame example_service_frame"
  by (simp add: valid_frame_def post_init_def example_service_frame_def NODE_ID_MASK_def
      DATA_TYPE_HASH_MASK_def TRANSFER_ID_MASK_def INDEX_MASK_def SERVICE_ID_MASK_def)

lemma compiled_length_examples:
  "compiled_length example_service_frame \<le> 74" "compiled_length example_message_frame \<le> 90"
  using compiled_length_le [of example_service_frame] compiled_length_le [of example_message_frame]
  by (simp_all add: example_service_frame_def example_message_frame_def)

lemma example_transport_open:
  "\<not> closed example_transport" "length (serialization_buffer example_transport) = 1024"
  "statistics example_transport = \<lparr>in_bytes = 0, in_frames = 0, in_out_of_band_bytes = 0,
        out_bytes = 0, out_frames = 0, out_transfers = 0, out_incomplete = 0\<rparr>"
  by (simp_all add: example_transport_def)

lemma fate_example_env:
  "n \<le> 100 \<Longrightarrow> frame_fate 10 (example_env k) n = WrittenFully"
  "bytes_written 10 (example_env k) = 100"
  by (simp_all add: frame_fate_def bytes_written_def example_env_def)

lemma fate_example_env_timeout:
  "n \<le> 100 \<Longrightarrow> frame_fate 10 (example_env_timeout 0) n = WrittenFully"
  "0 < k \<Longrightarrow> frame_fate 10 (example_env_timeout k) n = Aborted"
  "bytes_written 10 (example_env_timeout 0) = 100"
  "0 < k \<Longrightarrow> bytes_written 10 (example_env_timeout k) = 0"
  by (simp_all add: frame_fate_def bytes_written_def example_env_timeout_def)

theorem send_transfer_accounting_witness:
  "\<not> closed example_transport \<and> 1024 \<le> length (serialization_buffer example_transport) \<and>
   valid_frame example_service_frame \<and> valid_frame example_message_frame \<and>
   fst (send_transfer example_transport [example_service_frame, example_message_frame] 10 example_env)
     = Inr (Some (Timestamp 5 0)) \<and>
   out_frames (statistics (snd (send_transfer example_transport
     [example_service_frame, example_message_frame] 10 example_env))) = 2 \<and>
   out_bytes (statistics (snd (send_transfer example_transport
     [example_service_frame, example_message_frame] 10 example_env))) = 200 \<and>
   out_transfers (statistics (snd (send_transfer example_transport
     [example_service_frame, example_message_frame] 10 example_env))) = 1 \<and>
   out_incomplete (statistics (snd (send_transfer example_transport
     [example_service_frame, example_message_frame] 10 example_env))) = 0 \<and>
   fst (send_transfer example_transport [example_service_frame, example_message_frame] 10
     example_env_timeout) = Inr None \<and>
   out_frames (statistics (snd (send_transfer example_transport
     [example_service_frame, example_message_frame] 10 example_env_timeout))) = 1 \<and>
   out_transfers (statistics (snd (send_transfer example_transport
     [example_service_frame, example_message_frame] 10 example_env_timeout))) = 0 \<and>
   out_incomplete (statistics (snd (send_transfer example_transport
     [example_service_frame, example_message_frame] 10 example_env_timeout))) = 1"
proof -
  let ?frames = "[example_service_frame, example_message_frame]"
  have h1: "\<not> closed example_transport" by (rule example_transport_open)
  have h2: "1024 \<le> length (serialization_buffer example_transport)"
    by (simp add: example_transport_open)
  have h3: "\<forall>fr \<in> set ?frames. valid_frame fr"
    by (simp add: valid_example_message_frame valid_example_service_frame)
  have n1: "written_fully 10 example_env 0 ?frames = 2"
    using compiled_length_examples by (simp add: fate_example_env)
  have n2: "written_fully 10 example_env_timeout 0 ?frames = 1"
    using compiled_length_examples by (simp add: fate_example_env_timeout)
  have t0: "timestamp_now (example_env 0) = Timestamp 5 0" by (simp add: example_env_def)
  from send_transfer_accounting [OF h1 h2 h3, of 10 example_env]
    send_transfer_accounting [OF h1 h2 h3, of 10 example_env_timeout]
    h1 h2 valid_example_message_frame valid_example_service_frame
  show ?thesis
    unfolding Let_def n1 n2
    by (simp add: t0 example_transport_open fate_example_env fate_example_env_timeout)
qed

lemma close_idempotent: "close (close self) = close self"
  by (simp add: close_def)

text \<open>
  C8, as amended. Once the closed flag is set, by \<open>close\<close> or by a failure of the
  reader, no run of operations clears it; \<open>get_input_session\<close>,
  \<open>get_output_session\<close> and \<open>_send_transfer\<close> then fail with ResourceClosedError,
  while \<open>sample_statistics\<close> still returns the counters; \<open>close\<close> never fails, and
  a second \<open>close\<close> changes nothing.
\<close>

theorem closed_is_terminal:
  assumes "closed self"
  shows "closed (run self ops) \<and>
         fst (perform self (GetInputSession specifier)) = Inl ResourceClosedError \<and>
         fst (perform self (GetOutputSession specifier)) = Inl ResourceClosedError \<and>
         fst (perform self (SendTransfer frames dl env)) = Inl ResourceClosedError \<and>
         perform self SampleStatistics = (Inr (Statistics (statistics self)), self) \<and>
         fst (perform self Close) = Inr Nothing \<and>
         snd (perform (snd (perform self Close)) Close) = snd (perform self Close) \<and>
         closed (snd (perform other Close)) \<and> closed (snd (perform other ReaderFailure))"
  using assms run_preserves [of self ops]
  by (simp add: get_input_session_def get_output_session_def send_transfer_closed
      sample_statistics_def close_idempotent close_def reader_failure_def)

theorem closed_is_terminal_witness:
  "closed (close example_transport) \<and>
   closed (run (close example_transport)
     [GetInputSession (MessageDataSpecifier 7, None), SampleStatistics, Close]) \<and>
   fst (perform (close example_transport) (GetInputSession (MessageDataSpecifier 7, None)))
     = Inl ResourceClosedError \<and>
   fst (perform (close example_transport) (GetOutputSession (MessageDataSpecifier 7, None)))
     = Inl ResourceClosedError \<and>
   fst (perform (close example_transport) (SendTransfer [example_service_frame] 10 example_env))
     = Inl ResourceClosedError \<and>
   fst (perform (close example_transport) Close) = Inr Nothing"
proof -
  have h: "closed (close example_transport)" by (simp add: close_def)
  from closed_is_terminal [OF h] h show ?thesis by blast
qed

text \<open>
  C8 as stated fails: on a closed transport \<open>sample_statistics\<close>, a public
  operation, does not fail with ResourceClosedError.
\<close>

theorem sample_statistics_after_close_counterexample:
  "closed (snd (perform example_transport Close)) \<and>
   fst (perform (snd (perform example_transport Close)) SampleStatistics) \<noteq> Inl ResourceClosedError"
  by (simp add: close_def)

section \<open>The theorems at the frames of the source's tests\<close>

theorem codec_round_trip_witness:
  "valid_frame example_message_frame \<and>
   compiled_length example_message_frame \<le> length (replicate 1000 (0 :: byte)) \<and>
   (\<exists>out. compile_into example_message_frame (replicate 1000 0) = Inr out \<and>
      parse_from_unescaped_image (strip_framing out) (Timestamp 7 9) =
        Inr (Some (example_message_frame\<lparr>timestamp := Timestamp 7 9\<rparr>)))"
proof -
  have h1: "valid_frame example_message_frame" by (rule valid_example_message_frame)
  have h2: "compiled_length example_message_frame \<le> length (replicate 1000 (0 :: byte))"
    using compiled_length_examples(2) by simp
  from h1 h2 codec_round_trip [OF h1 h2, of "Timestamp 7 9"] show ?thesis by blast
qed

theorem compile_into_framing_witness:
  "valid_frame example_service_frame \<and>
   compiled_length example_service_frame \<le> length (replicate 100 (0 :: byte)) \<and>
   (\<exists>img out. frame_image example_service_frame = Inr img \<and>
      compile_into example_service_frame (replicate 100 0) = Inr out \<and>
      hd out = 0x9E \<and> last out = 0x9E \<and> 0x9E \<notin> set (butlast (tl out)) \<and>
      butlast (tl out) =
        concat (map (\<lambda>b. if b = 0x9E \<or> b = 0x8E then [0x8E, b XOR 0xFF] else [b]) img))"
proof -
  have h1: "valid_frame example_service_frame" by (rule valid_example_service_frame)
  have h2: "compiled_length example_service_frame \<le> length (replicate 100 (0 :: byte))"
    using compiled_length_examples(1) by simp
  from h1 h2 compile_into_framing [OF h1 h2] show ?thesis by blast
qed

lemma parse_example_service_image:
  "parse_from_unescaped_image example_service_image ts =
     Inr (Some (example_service_frame\<lparr>timestamp := ts\<rparr>))"
  unfolding example_service_image_def
  by (rule parse_frame_image [OF valid_example_service_frame])

lemma length_example_service_image: "length example_service_image = 36"
  by (simp add: example_service_image_def length_header_without_crc length_value_as_bytes
      example_service_frame_def)

theorem parse_never_raises_witness:
  "length [1, 2, 3 :: byte] < 36 \<and>
   parse_from_unescaped_image [1, 2, 3] (Timestamp 0 0) = Inr None \<and>
   parse_from_unescaped_image example_service_image (Timestamp 7 9) =
     Inr (Some (example_service_frame\<lparr>timestamp := Timestamp 7 9\<rparr>)) \<and>
   valid_frame (example_service_frame\<lparr>timestamp := Timestamp 7 9\<rparr>)"
proof -
  have h1: "length [1, 2, 3 :: byte] < 36" by simp
  have h2: "parse_from_unescaped_image example_service_image (Timestamp 7 9) =
     Inr (Some (example_service_frame\<lparr>timestamp := Timestamp 7 9\<rparr>))"
    by (rule parse_example_service_image)
  from parse_never_raises [of "[1, 2, 3]" "Timestamp 0 0"]
    parse_never_raises [of example_service_image "Timestamp 7 9"] h1 h2
  show ?thesis by simp
qed

theorem single_bit_flip_rejected_witness:
  "parse_from_unescaped_image example_service_image (Timestamp 7 9) =
     Inr (Some (example_service_frame\<lparr>timestamp := Timestamp 7 9\<rparr>)) \<and>
   (5 :: nat) < length example_service_image \<and> (3 :: nat) < 8 \<and>
   parse_from_unescaped_image
     (example_service_image[5 := example_service_image ! 5 XOR push_bit 3 1]) (Timestamp 8 10)
     = Inr None"
proof -
  have h1: "parse_from_unescaped_image example_service_image (Timestamp 7 9) =
     Inr (Some (example_service_frame\<lparr>timestamp := Timestamp 7 9\<rparr>))"
    by (rule parse_example_service_image)
  have h2: "(5 :: nat) < length example_service_image" by (simp add: length_example_service_image)
  have h3: "(3 :: nat) < 8" by simp
  from h1 h2 single_bit_flip_rejected [OF h1 h2 h3, of "Timestamp 8 10"] show ?thesis by simp
qed

theorem post_init_raises_iff_invariant_violated_witness:
  "post_init example_message_frame = Inr example_message_frame \<and>
   post_init (example_message_frame\<lparr>source_node_id := Some 123456\<rparr>) = Inl ValueError \<and>
   post_init (example_service_frame\<lparr>source_node_id := None\<rparr>) = Inl ValueError \<and>
   post_init (example_message_frame\<lparr>index := - 1\<rparr>) = Inl ValueError"
  using post_init_raises_iff_invariant_violated [of example_message_frame]
    post_init_raises_iff_invariant_violated [of "example_message_frame\<lparr>source_node_id := Some 123456\<rparr>"]
    post_init_raises_iff_invariant_violated [of "example_service_frame\<lparr>source_node_id := None\<rparr>"]
    post_init_raises_iff_invariant_violated [of "example_message_frame\<lparr>index := - 1\<rparr>"]
  by (auto simp: example_message_frame_def example_service_frame_def)

theorem handle_received_frame_routing_witness:
  "input_registry (handle_received_frame example_routing_transport example_service_frame)
     (ServiceDataSpecifier 123 RESPONSE, Some 158)
     = Some \<lparr>processed_frames = [example_service_frame]\<rparr> \<and>
   input_registry (handle_received_frame example_routing_transport example_service_frame)
     (ServiceDataSpecifier 123 RESPONSE, None)
     = Some \<lparr>processed_frames = [example_service_frame]\<rparr> \<and>
   input_registry (handle_received_frame example_routing_transport example_service_frame)
     (ServiceDataSpecifier 123 REQUEST, None) = None \<and>
   input_registry (handle_received_frame example_routing_transport
       (example_service_frame\<lparr>destination_node_id := Some 7\<rparr>))
     (ServiceDataSpecifier 123 RESPONSE, Some 158) = Some \<lparr>processed_frames = []\<rparr>"
  using handle_received_frame_routing [of example_routing_transport example_service_frame
      "(ServiceDataSpecifier 123 RESPONSE, Some 158)"]
    handle_received_frame_routing [of example_routing_transport example_service_frame
      "(ServiceDataSpecifier 123 RESPONSE, None)"]
    handle_received_frame_routing [of example_routing_transport example_service_frame
      "(ServiceDataSpecifier 123 REQUEST, None)"]
    handle_received_frame_routing [of example_routing_transport
      "example_service_frame\<lparr>destination_node_id := Some 7\<rparr>"
      "(ServiceDataSpecifier 123 RESPONSE, Some 158)"]
  by (simp add: example_routing_transport_def example_transport_def example_service_frame_def
      process_frame_def)

theorem in_frames_counts_every_frame_witness:
  "in_frames (statistics (handle_received_frame example_routing_transport
       (example_service_frame\<lparr>destination_node_id := Some 7\<rparr>))) = 1"
  using in_frames_counts_every_frame [of example_routing_transport
      "example_service_frame\<lparr>destination_node_id := Some 7\<rparr>"]
  by (simp add: example_routing_transport_def example_transport_def)

theorem scratch_buffer_never_overrun_witness:
  "init_SerialTransport True (Some 42) (1024 ^ 3) 2 = Inr example_transport \<and>
   2 + 2 * (32 + length (payload example_message_frame) + 4)
     \<le> length (grow_buffer (serialization_buffer
          (run example_transport [SendTransfer [example_service_frame] 10 example_env]))
          example_message_frame) \<and>
   compile_into example_message_frame
     (grow_buffer (serialization_buffer
        (run example_transport [SendTransfer [example_service_frame] 10 example_env]))
        example_message_frame) \<noteq> Inl IndexError"
proof -
  have h: "init_SerialTransport True (Some 42) (1024 ^ 3) 2 = Inr example_transport"
    by (simp add: init_SerialTransport_def example_transport_def NODE_ID_MASK_def)
  from h scratch_buffer_never_overrun [OF h] show ?thesis by blast
qed

end
